theory Spec2Isabelle
  imports Main "HOL-Library.Word"
begin

unbundle bit_operations_syntax

section \<open>Machine types and constants of main.cpp\<close>

text \<open>
  Modelled from the spec: the header \<^verbatim>\<open>types.hpp\<close> is not among the sources; \<open>u8\<close>,
  \<open>u16\<close>, \<open>u32\<close> and \<open>u64\<close> are the unsigned integers of 8, 16, 32 and 64 bits
  that the spec's data model names. The C++ type \<^verbatim>\<open>int\<close>, to which the operands of
  arithmetic on \<open>u8\<close> and \<open>u16\<close> are promoted, has 32 bits (two's complement).
\<close>

type_synonym u8 = "8 word"
type_synonym u16 = "16 word"
type_synonym u32 = "32 word"
type_synonym u64 = "64 word"

definition SIGNATURE_OFFSET :: u16 where "SIGNATURE_OFFSET = 0x000"
definition SIGNATURE_LENGTH :: u16 where "SIGNATURE_LENGTH = 4"
definition WIDTH_OFFSET :: u16 where "WIDTH_OFFSET = 0x424"
definition HEIGHT_OFFSET :: u16 where "HEIGHT_OFFSET = 0x426"
definition PALETTE_OFFSET :: u16 where "PALETTE_OFFSET = 0x430"
definition IMAGE_OFFSET :: u16 where "IMAGE_OFFSET = 0x470"
definition PALETTE_SIZE :: u16 where "PALETTE_SIZE = 64"
definition PIXEL_STRIDE :: u16 where "PIXEL_STRIDE = 4"
definition NUM_PALETTE_COLORS :: u16 where
  "NUM_PALETTE_COLORS = PALETTE_SIZE div PIXEL_STRIDE"

definition ExpectedSignature :: "u8 list" where
  "ExpectedSignature = [0x47, 0x41, 0x4E, 0x10]"

section \<open>Memory accesses and undefined behaviour\<close>

text \<open>
  The program indexes its arrays without any check. An access outside the array, and an
  overflow of signed \<^verbatim>\<open>int\<close> arithmetic, have no defined behaviour in C++; the model
  makes each of them a \<open>fault\<close>, which ends the run. A write fault records the byte
  offset of the destination.
\<close>

datatype fault = ReadOutOfBounds | WriteOutOfBounds nat | SignedOverflow

text \<open>\<^verbatim>\<open>a[i]\<close> as an rvalue, for an array holding the bytes \<open>a\<close>.\<close>

definition rd :: "u8 list \<Rightarrow> nat \<Rightarrow> fault + u8" where
  "rd a i = (if i < length a then Inr (a ! i) else Inl ReadOutOfBounds)"

text \<open>
  \<^verbatim>\<open>std::memcpy(&dst[off], src, n)\<close>: the \<open>n\<close> bytes of \<open>src\<close> replace the bytes
  \<open>off ..< off + n\<close> of \<open>dst\<close>, which must lie inside \<open>dst\<close>.
\<close>

definition memcpy :: "u8 list \<Rightarrow> nat \<Rightarrow> u8 list \<Rightarrow> nat \<Rightarrow> fault + u8 list" where
  "memcpy dst off src n =
     (if n \<le> length src then
        if off + n \<le> length dst
        then Inr (take off dst @ take n src @ drop (off + n) dst)
        else Inl (WriteOutOfBounds off)
      else Inl ReadOutOfBounds)"

text \<open>Multiplication of two \<^verbatim>\<open>int\<close> values: defined only when the product is an \<^verbatim>\<open>int\<close>.\<close>

definition int_mul :: "int \<Rightarrow> int \<Rightarrow> fault + int" where
  "int_mul a b =
     (if - (2 ^ 31) \<le> a * b \<and> a * b < 2 ^ 31 then Inr (a * b) else Inl SignedOverflow)"

section \<open>Buffer and readFromFile\<close>

text \<open>
  \<^verbatim>\<open>struct Buffer { std::unique_ptr<u8[]> data = nullptr; u64 size = 0; }\<close>.
  The array behind \<open>data\<close> is the list of its bytes; the null pointer owns no byte and
  is the empty list.
\<close>

record Buffer =
  data :: "u8 list"
  size_u64 :: u64

text \<open>
  \<open>readFromFile\<close> takes what the file system answers: \<open>None\<close> when the file cannot be
  opened or is read incompletely (the function then returns \<^verbatim>\<open>{}\<close>), the bytes of the
  file otherwise.
\<close>

definition readFromFile :: "u8 list option \<Rightarrow> Buffer" where
  "readFromFile file =
     (case file of
        None \<Rightarrow> \<lparr>data = [], size_u64 = 0\<rparr>
      | Some bytes \<Rightarrow> \<lparr>data = bytes, size_u64 = of_nat (length bytes)\<rparr>)"

section \<open>validate_file\<close>

text \<open>
  The loop \<^verbatim>\<open>for (u64 i = 0; i < SIGNATURE_LENGTH; ++i)\<close> of \<open>validate_file\<close>, entered
  at \<open>i\<close>: the first byte that differs returns \<open>false\<close>.
\<close>

function validate_loop :: "Buffer \<Rightarrow> u64 \<Rightarrow> fault + bool" where
  "validate_loop buffer i =
     (if i < ucast SIGNATURE_LENGTH then
        (case rd (data buffer) (unat (ucast SIGNATURE_OFFSET + i)) of
           Inl e \<Rightarrow> Inl e
         | Inr b \<Rightarrow>
             if b \<noteq> ExpectedSignature ! unat i then Inr False
             else validate_loop buffer (i + 1))
      else Inr True)"
  by pat_completeness auto
termination
proof (relation "measure (\<lambda>(buffer, i). 4 - unat i)")
  show "wf (measure (\<lambda>(buffer :: Buffer, i :: u64). 4 - unat i))"
    by simp
next
  fix buffer :: Buffer and i :: u64 and b :: u8
  assume "i < ucast SIGNATURE_LENGTH"
  then have "unat i < 4"
    by (simp add: SIGNATURE_LENGTH_def word_less_nat_alt)
  then have "unat (i + 1) = unat i + 1"
    by (simp add: unat_word_ariths)
  with \<open>unat i < 4\<close>
  show "((buffer, i + 1), (buffer, i)) \<in> measure (\<lambda>(buffer, i). 4 - unat i)"
    by simp
qed

declare validate_loop.simps [simp del]

definition validate_file :: "Buffer \<Rightarrow> fault + bool" where
  "validate_file buffer = validate_loop buffer 0"

section \<open>The body of to_png for one file\<close>

subsection \<open>Palette (lines 87 to 94)\<close>

text \<open>
  A row of \<^verbatim>\<open>u8 palette[NUM_PALETTE_COLORS][PIXEL_STRIDE]\<close> is an array of four bytes,
  modelled as a quadruple; \<open>bytes_of\<close> lists its bytes in memory order.
\<close>

type_synonym rgba = "u8 \<times> u8 \<times> u8 \<times> u8"

definition bytes_of :: "rgba \<Rightarrow> u8 list" where
  "bytes_of c = (case c of (r, g, b, a) \<Rightarrow> [r, g, b, a])"

text \<open>\<^verbatim>\<open>palette[index]\<close>, the row of a palette.\<close>

definition row_at :: "rgba list \<Rightarrow> nat \<Rightarrow> fault + rgba" where
  "row_at palette i = (if i < length palette then Inr (palette ! i) else Inl ReadOutOfBounds)"

text \<open>
  \<^verbatim>\<open>for (u64 i = 1; i < NUM_PALETTE_COLORS; ++i)\<close>, entered at \<open>i\<close>. The four
  assignments to \<^verbatim>\<open>palette[i][0..3]\<close> replace the whole row.
\<close>

function palette_loop :: "u8 list \<Rightarrow> u64 \<Rightarrow> rgba list \<Rightarrow> fault + rgba list" where
  "palette_loop fb i palette =
     (if i < ucast NUM_PALETTE_COLORS then
        (let offset = ucast PALETTE_OFFSET + i * ucast PIXEL_STRIDE in
         case rd fb (unat (offset + 0)) of
           Inl e \<Rightarrow> Inl e
         | Inr r \<Rightarrow>
             (case rd fb (unat (offset + 1)) of
                Inl e \<Rightarrow> Inl e
              | Inr g \<Rightarrow>
                  (case rd fb (unat (offset + 2)) of
                     Inl e \<Rightarrow> Inl e
                   | Inr b \<Rightarrow> palette_loop fb (i + 1) (palette[unat i := (r, g, b, 0xFF)]))))
      else Inr palette)"
  by pat_completeness auto
termination
proof (relation "measure (\<lambda>(fb, i, palette). 16 - unat i)")
  show "wf (measure (\<lambda>(fb :: u8 list, i :: u64, palette :: rgba list). 16 - unat i))"
    by simp
next
  fix fb :: "u8 list" and i :: u64 and palette :: "rgba list" and offset :: u64
    and r g b :: u8
  assume "i < ucast NUM_PALETTE_COLORS"
  then have "unat i < 16"
    by (simp add: NUM_PALETTE_COLORS_def PALETTE_SIZE_def PIXEL_STRIDE_def word_less_nat_alt)
  then have "unat (i + 1) = unat i + 1"
    by (simp add: unat_word_ariths)
  with \<open>unat i < 16\<close>
  show "((fb, i + 1, palette[unat i := (r, g, b, 0xFF)]), (fb, i, palette))
          \<in> measure (\<lambda>(fb, i, palette). 16 - unat i)"
    by simp
qed

declare palette_loop.simps [simp del]

text \<open>
  \<^verbatim>\<open>u8 palette[..][..] = { { 0, 0, 0, 0 } }\<close> zero-initialises every row; the loop
  starts at 1 and never touches row 0.
\<close>

definition decode_palette :: "u8 list \<Rightarrow> fault + rgba list" where
  "decode_palette fb =
     palette_loop fb 1 (replicate (unat NUM_PALETTE_COLORS) (0, 0, 0, 0))"

subsection \<open>Header (lines 96 to 98)\<close>

text \<open>
  \<^verbatim>\<open>data[OFF] | (data[OFF + 1] << 8)\<close>: both bytes are promoted to \<^verbatim>\<open>int\<close>, and the
  result is converted to \<open>u16\<close>.
\<close>

definition read_width :: "u8 list \<Rightarrow> fault + u16" where
  "read_width fb =
     (case rd fb (unat WIDTH_OFFSET) of
        Inl e \<Rightarrow> Inl e
      | Inr lo \<Rightarrow>
          (case rd fb (unat WIDTH_OFFSET + 1) of
             Inl e \<Rightarrow> Inl e
           | Inr hi \<Rightarrow> Inr (ucast ((ucast lo :: u32) OR push_bit 8 (ucast hi :: u32)))))"

definition read_height :: "u8 list \<Rightarrow> fault + u16" where
  "read_height fb =
     (case rd fb (unat HEIGHT_OFFSET) of
        Inl e \<Rightarrow> Inl e
      | Inr lo \<Rightarrow>
          (case rd fb (unat HEIGHT_OFFSET + 1) of
             Inl e \<Rightarrow> Inl e
           | Inr hi \<Rightarrow> Inr (ucast ((ucast lo :: u32) OR push_bit 8 (ucast hi :: u32)))))"

text \<open>
  \<^verbatim>\<open>const u32 count = width * height\<close>: the operands are promoted to \<^verbatim>\<open>int\<close>, the
  product is an \<^verbatim>\<open>int\<close> and is then converted to \<open>u32\<close>.
\<close>

definition pixel_count :: "u16 \<Rightarrow> u16 \<Rightarrow> fault + u32" where
  "pixel_count width height =
     (case int_mul (uint width) (uint height) of
        Inl e \<Rightarrow> Inl e
      | Inr p \<Rightarrow> Inr (word_of_int p))"

subsection \<open>Pixel loops (lines 100 to 114)\<close>

text \<open>
  \<^verbatim>\<open>std::make_unique<u8[]>(PIXEL_STRIDE * count)\<close>: the product is computed in
  \<^verbatim>\<open>unsigned int\<close> (32 bits, wrapping) and the array is zero-initialised.
\<close>

definition alloc_pixeldata :: "u32 \<Rightarrow> u8 list" where
  "alloc_pixeldata count = replicate (unat (ucast PIXEL_STRIDE * count)) 0"

text \<open>
  The loop nest visits pairs \<open>(y, x)\<close>; its bounds and counters are not changed by its
  body. \<open>x_loop\<close> is \<^verbatim>\<open>for (u64 x = 0; x < width; x += 2)\<close> entered at \<open>x\<close> in row
  \<open>y\<close>, and \<open>y_loop\<close> is \<^verbatim>\<open>for (u64 y = 0; y < height; ++y)\<close> entered at \<open>y\<close>: each
  gives the iterations still to run, in order.
\<close>

function x_loop :: "u16 \<Rightarrow> u64 \<Rightarrow> u64 \<Rightarrow> (u64 \<times> u64) list" where
  "x_loop width y x = (if x < ucast width then (y, x) # x_loop width y (x + 2) else [])"
  by pat_completeness auto
termination
proof (relation "measure (\<lambda>(width, y, x). unat width - unat x)")
  show "wf (measure (\<lambda>(width :: u16, y :: u64, x :: u64). unat width - unat x))"
    by simp
next
  fix width :: u16 and y x :: u64
  have bound: "unat width < 2 ^ 16"
    using unsigned_less [of width] by simp
  then have "unat (ucast width :: u64) = unat width"
    by (simp add: unsigned_ucast_eq take_bit_nat_eq_self)
  moreover assume "x < ucast width"
  ultimately have lt: "unat x < unat width"
    by (simp add: word_less_nat_alt)
  with bound have "unat (x + 2) = unat x + 2"
    by (simp add: unat_word_ariths)
  with lt show "((width, y, x + 2), (width, y, x)) \<in> measure (\<lambda>(width, y, x). unat width - unat x)"
    by simp
qed

declare x_loop.simps [simp del]

function y_loop :: "u16 \<Rightarrow> u16 \<Rightarrow> u64 \<Rightarrow> (u64 \<times> u64) list" where
  "y_loop width height y =
     (if y < ucast height then x_loop width y 0 @ y_loop width height (y + 1) else [])"
  by pat_completeness auto
termination
proof (relation "measure (\<lambda>(width, height, y). unat height - unat y)")
  show "wf (measure (\<lambda>(width :: u16, height :: u16, y :: u64). unat height - unat y))"
    by simp
next
  fix width height :: u16 and y :: u64
  have bound: "unat height < 2 ^ 16"
    using unsigned_less [of height] by simp
  then have "unat (ucast height :: u64) = unat height"
    by (simp add: unsigned_ucast_eq take_bit_nat_eq_self)
  moreover assume "y < ucast height"
  ultimately have lt: "unat y < unat height"
    by (simp add: word_less_nat_alt)
  with bound have "unat (y + 1) = unat y + 1"
    by (simp add: unat_word_ariths)
  with lt show "((width, height, y + 1), (width, height, y))
                  \<in> measure (\<lambda>(width, height, y). unat height - unat y)"
    by simp
qed

declare y_loop.simps [simp del]

text \<open>\<^verbatim>\<open>i1 = y * width + x\<close>, the linear index of the first pixel of the pair.\<close>

definition pixel_index :: "u16 \<Rightarrow> u64 \<times> u64 \<Rightarrow> u64" where
  "pixel_index width yx = (case yx of (y, x) \<Rightarrow> y * ucast width + x)"

text \<open>The body of the inner loop (lines 104 to 112) at the iteration \<open>(y, x)\<close>.\<close>

definition pixel_pair ::
  "u8 list \<Rightarrow> rgba list \<Rightarrow> u16 \<Rightarrow> u64 \<times> u64 \<Rightarrow> u8 list \<Rightarrow> fault + u8 list" where
  "pixel_pair fb palette width yx pixeldata =
     (let i1 = pixel_index width yx;
          i2 = i1 + 1
      in case rd fb (unat (ucast IMAGE_OFFSET + drop_bit 1 i1)) of
           Inl e \<Rightarrow> Inl e
         | Inr byte \<Rightarrow>
             (let index1 = byte AND 0x0F;
                  index2 = drop_bit 4 byte
              in case row_at palette (unat index1) of
                   Inl e \<Rightarrow> Inl e
                 | Inr c1 \<Rightarrow>
                     (case memcpy pixeldata (unat (i1 * ucast PIXEL_STRIDE)) (bytes_of c1)
                             (unat PIXEL_STRIDE) of
                        Inl e \<Rightarrow> Inl e
                      | Inr pixeldata1 \<Rightarrow>
                          (case row_at palette (unat index2) of
                             Inl e \<Rightarrow> Inl e
                           | Inr c2 \<Rightarrow>
                               memcpy pixeldata1 (unat (i2 * ucast PIXEL_STRIDE)) (bytes_of c2)
                                 (unat PIXEL_STRIDE)))))"

text \<open>Running a body over the iterations of a loop; a fault ends the run.\<close>

fun for_each :: "('a \<Rightarrow> 's \<Rightarrow> fault + 's) \<Rightarrow> 'a list \<Rightarrow> 's \<Rightarrow> fault + 's" where
  "for_each body [] s = Inr s"
| "for_each body (a # as) s =
     (case body a s of Inl e \<Rightarrow> Inl e | Inr s' \<Rightarrow> for_each body as s')"

definition unpack_loops ::
  "u8 list \<Rightarrow> rgba list \<Rightarrow> u16 \<Rightarrow> u16 \<Rightarrow> u8 list \<Rightarrow> fault + u8 list" where
  "unpack_loops fb palette width height pixeldata =
     for_each (pixel_pair fb palette width) (y_loop width height 0) pixeldata"

text \<open>Lines 98 to 114: the count, the allocation and the loops.\<close>

definition unpack :: "u8 list \<Rightarrow> rgba list \<Rightarrow> u16 \<Rightarrow> u16 \<Rightarrow> fault + u8 list" where
  "unpack fb palette width height =
     (case pixel_count width height of
        Inl e \<Rightarrow> Inl e
      | Inr count \<Rightarrow> unpack_loops fb palette width height (alloc_pixeldata count))"

subsection \<open>One file, and the batch\<close>

text \<open>
  The arguments of \<^verbatim>\<open>stbi_write_png(path, w, h, comp, data, stride_in_bytes)\<close>, apart
  from the path; the encoder itself is a library outside the program.
\<close>

record png_call =
  png_w :: int
  png_h :: int
  png_comp :: int
  png_data :: "u8 list"
  png_stride :: int

text \<open>
  The body of the loop over the directory entries for one regular file: \<open>None\<close> when
  the file is skipped, the call of the encoder otherwise.
\<close>

definition to_png_file :: "Buffer \<Rightarrow> fault + png_call option" where
  "to_png_file fileBuffer =
     (case validate_file fileBuffer of
        Inl e \<Rightarrow> Inl e
      | Inr False \<Rightarrow> Inr None
      | Inr True \<Rightarrow>
          (case decode_palette (data fileBuffer) of
             Inl e \<Rightarrow> Inl e
           | Inr palette \<Rightarrow>
               (case read_width (data fileBuffer) of
                  Inl e \<Rightarrow> Inl e
                | Inr width \<Rightarrow>
                    (case read_height (data fileBuffer) of
                       Inl e \<Rightarrow> Inl e
                     | Inr height \<Rightarrow>
                         (case unpack (data fileBuffer) palette width height of
                            Inl e \<Rightarrow> Inl e
                          | Inr pixeldata \<Rightarrow>
                              Inr (Some \<lparr>png_w = uint width, png_h = uint height,
                                         png_comp = uint PIXEL_STRIDE, png_data = pixeldata,
                                         png_stride = uint width * uint PIXEL_STRIDE\<rparr>))))))"

text \<open>
  \<open>to_png\<close> over the regular files below the path, each given by what the file system
  answers for it; \<open>None\<close> is a path that is no directory. The result is the return
  value and the encoder calls made, in order.
\<close>

fun to_png_files :: "u8 list option list \<Rightarrow> fault + png_call list" where
  "to_png_files [] = Inr []"
| "to_png_files (file # files) =
     (case to_png_file (readFromFile file) of
        Inl e \<Rightarrow> Inl e
      | Inr r \<Rightarrow>
          (case to_png_files files of
             Inl e \<Rightarrow> Inl e
           | Inr calls \<Rightarrow> Inr ((case r of None \<Rightarrow> [] | Some c \<Rightarrow> [c]) @ calls)))"

definition to_png :: "u8 list option list option \<Rightarrow> fault + bool \<times> png_call list" where
  "to_png dir =
     (case dir of
        None \<Rightarrow> Inr (False, [])
      | Some files \<Rightarrow>
          (case to_png_files files of Inl e \<Rightarrow> Inl e | Inr calls \<Rightarrow> Inr (True, calls)))"

section \<open>The unpacking algorithm in the words of the specification\<close>

text \<open>
  The specification of the pixel unpacker, over natural numbers: for each row \<open>y\<close> in
  \<open>[0, height)\<close> and each \<open>x\<close> in \<open>[0, width)\<close> in steps of 2, with \<open>i1 = y * width + x\<close>
  and \<open>i2 = i1 + 1\<close>, the byte at the bitmap offset plus \<open>i1 >> 1\<close> gives the palette
  index of pixel \<open>i1\<close> (low nibble) and of pixel \<open>i2\<close> (high nibble), and the four bytes
  of each colour are copied to the pixel's offset \<open>i * 4\<close>.
\<close>

definition spec_pixel_pair ::
  "u8 list \<Rightarrow> rgba list \<Rightarrow> nat \<Rightarrow> nat \<times> nat \<Rightarrow> u8 list \<Rightarrow> fault + u8 list" where
  "spec_pixel_pair fb palette width yx pixels =
     (case yx of (y, x) \<Rightarrow>
        let i1 = y * width + x;
            i2 = i1 + 1
        in case rd fb (0x470 + i1 div 2) of
             Inl e \<Rightarrow> Inl e
           | Inr byte \<Rightarrow>
               (let low = unat byte mod 16;
                    high = unat byte div 16
                in case row_at palette low of
                     Inl e \<Rightarrow> Inl e
                   | Inr c1 \<Rightarrow>
                       (case memcpy pixels (i1 * 4) (bytes_of c1) 4 of
                          Inl e \<Rightarrow> Inl e
                        | Inr pixels1 \<Rightarrow>
                            (case row_at palette high of
                               Inl e \<Rightarrow> Inl e
                             | Inr c2 \<Rightarrow> memcpy pixels1 (i2 * 4) (bytes_of c2) 4))))"

definition spec_iterations :: "nat \<Rightarrow> nat \<Rightarrow> (nat \<times> nat) list" where
  "spec_iterations width height = [(y, x). y \<leftarrow> [0..<height], x \<leftarrow> [0..<width], even x]"

definition spec_unpack_loops ::
  "u8 list \<Rightarrow> rgba list \<Rightarrow> nat \<Rightarrow> nat \<Rightarrow> u8 list \<Rightarrow> fault + u8 list" where
  "spec_unpack_loops fb palette width height pixels =
     for_each (spec_pixel_pair fb palette width) (spec_iterations width height) pixels"

text \<open>
  Auxiliary notions for the proofs: the body at a linear index, the linear indices that
  the iterations visit, the palette index that the bitmap stores for pixel \<open>p\<close>, and the
  bytes of the first \<open>n\<close> pixels resolved through a palette.
\<close>

definition pair_at :: "u8 list \<Rightarrow> rgba list \<Rightarrow> nat \<Rightarrow> u8 list \<Rightarrow> fault + u8 list" where
  "pair_at fb palette i1 pixels =
     (case rd fb (0x470 + i1 div 2) of
        Inl e \<Rightarrow> Inl e
      | Inr byte \<Rightarrow>
          (case row_at palette (unat byte mod 16) of
             Inl e \<Rightarrow> Inl e
           | Inr c1 \<Rightarrow>
               (case memcpy pixels (i1 * 4) (bytes_of c1) 4 of
                  Inl e \<Rightarrow> Inl e
                | Inr pixels1 \<Rightarrow>
                    (case row_at palette (unat byte div 16) of
                       Inl e \<Rightarrow> Inl e
                     | Inr c2 \<Rightarrow> memcpy pixels1 ((i1 + 1) * 4) (bytes_of c2) 4))))"

definition linear_indices :: "nat \<Rightarrow> nat \<Rightarrow> nat list" where
  "linear_indices width height = map (\<lambda>(y, x). y * width + x) (spec_iterations width height)"

definition palette_index_of :: "u8 list \<Rightarrow> nat \<Rightarrow> nat" where
  "palette_index_of fb p =
     (let byte = fb ! (0x470 + p div 2)
      in if even p then unat byte mod 16 else unat byte div 16)"

definition expected_pixels :: "u8 list \<Rightarrow> rgba list \<Rightarrow> nat \<Rightarrow> u8 list" where
  "expected_pixels fb palette n =
     concat (map (\<lambda>p. bytes_of (palette ! palette_index_of fb p)) [0..<n])"

text \<open>
  The row that the palette loop assigns to entry \<open>j\<close>.
\<close>

definition palette_entry :: "u8 list \<Rightarrow> nat \<Rightarrow> rgba" where
  "palette_entry fb j = (fb ! (0x430 + 4 * j), fb ! (0x430 + 4 * j + 1), fb ! (0x430 + 4 * j + 2), 0xFF)"

text \<open>
  A file of the format and a palette, used to evaluate the functions: a 4 by 2 image
  whose palette slot 0 holds \<open>09 09 09 09\<close>, whose slot 1 holds \<open>FF 00 00 77\<close> and whose
  bitmap is \<open>10 01 10 01\<close>.
\<close>

definition sample_file :: "u8 list" where
  "sample_file =
     [0x47, 0x41, 0x4E, 0x10] @ replicate 0x420 0 @ [0x04, 0x00, 0x02, 0x00] @ replicate 8 0
     @ [0x09, 0x09, 0x09, 0x09] @ [0xFF, 0x00, 0x00, 0x77] @ replicate 56 0
     @ [0x10, 0x01, 0x10, 0x01]"

definition sample_palette :: "rgba list" where
  "sample_palette = [(0, 0, 0, 0), (0xFF, 0, 0, 0xFF)] @ replicate 14 (0, 0, 0, 0)"


definition huge_file :: "u8 list" where
  "huge_file =
     [0x47, 0x41, 0x4E, 0x10] @ replicate 0x420 0 @ [0x00, 0x80, 0x00, 0x80] @ replicate 8 0
     @ replicate 64 0 @ replicate 0x20000000 0"

section \<open>The signature check\<close>

lemma validate_loop_4: "validate_loop buffer 4 = Inr True"
  by (subst validate_loop.simps) (simp add: SIGNATURE_LENGTH_def)

lemma validate_loop_step:
  assumes "i < 4"
  shows "validate_loop buffer (of_nat i) =
     (if i < length (data buffer)
      then if data buffer ! i \<noteq> ExpectedSignature ! i then Inr False
           else validate_loop buffer (of_nat (Suc i))
      else Inl ReadOutOfBounds)"
proof -
  from assms have u: "unat (of_nat i :: u64) = i"
    by (simp add: unat_of_nat)
  from assms have lt: "(of_nat i :: u64) < 4"
    by (simp add: word_less_nat_alt u)
  have s: "of_nat i + 1 = (of_nat (Suc i) :: u64)" by simp
  show ?thesis
    apply (subst validate_loop.simps)
    apply (simp only: SIGNATURE_LENGTH_def SIGNATURE_OFFSET_def rd_def u lt s)
    apply (simp add: u lt del: of_nat_Suc)
    done
qed

lemma validate_file_unfold:
  "validate_file buffer =
     (if 0 < length (data buffer) then
        if data buffer ! 0 \<noteq> 0x47 then Inr False
        else if 1 < length (data buffer) then
          if data buffer ! 1 \<noteq> 0x41 then Inr False
          else if 2 < length (data buffer) then
            if data buffer ! 2 \<noteq> 0x4E then Inr False
            else if 3 < length (data buffer) then
              if data buffer ! 3 \<noteq> 0x10 then Inr False else Inr True
            else Inl ReadOutOfBounds
          else Inl ReadOutOfBounds
        else Inl ReadOutOfBounds
      else Inl ReadOutOfBounds)"
  using validate_loop_step [of 0 buffer] validate_loop_step [of 1 buffer]
    validate_loop_step [of 2 buffer] validate_loop_step [of 3 buffer]
    validate_loop_4 [of buffer]
  by (simp add: validate_file_def ExpectedSignature_def numeral_2_eq_2 numeral_3_eq_3)

lemma validate_file_long:
  assumes "unat SIGNATURE_OFFSET + unat SIGNATURE_LENGTH \<le> length (data buffer)"
  shows "validate_file buffer =
           Inr (take 4 (data buffer) = [0x47, 0x41, 0x4E, 0x10])"
proof -
  from assms have len: "4 \<le> length (data buffer)"
    by (simp add: SIGNATURE_OFFSET_def SIGNATURE_LENGTH_def)
  then obtain a r1 where 1: "data buffer = a # r1"
    by (cases "data buffer") auto
  with len obtain b r2 where 2: "r1 = b # r2"
    by (cases r1) auto
  with 1 len obtain c r3 where 3: "r2 = c # r3"
    by (cases r2) auto
  with 1 2 len obtain d rest where 4: "r3 = d # rest"
    by (cases r3) auto
  from 1 2 3 4 have d: "data buffer = a # b # c # d # rest"
    by simp
  show ?thesis
    by (simp add: validate_file_unfold d)
qed

text \<open>
  Claim C4. For every buffer that holds the four bytes of the signature region,
  \<open>validate_file\<close> returns true exactly when those bytes are \<open>0x47, 0x41, 0x4E, 0x10\<close>
  in this order; a signature that ends in \<open>0x11\<close> is rejected.
\<close>

theorem validate_file_iff_signature:
  assumes "unat SIGNATURE_OFFSET + unat SIGNATURE_LENGTH \<le> length (data buffer)"
  shows "validate_file buffer =
           Inr (take 4 (data buffer) = [0x47, 0x41, 0x4E, 0x10])"
  using assms by (rule validate_file_long)

theorem validate_file_iff_signature_witness:
  "validate_file \<lparr>data = [0x47, 0x41, 0x4E, 0x11], size_u64 = 4\<rparr> = Inr False
   \<and> validate_file \<lparr>data = [0x47, 0x41, 0x4E, 0x10, 0x00], size_u64 = 5\<rparr> = Inr True"
  using validate_file_iff_signature [of "\<lparr>data = [0x47, 0x41, 0x4E, 0x11], size_u64 = 4\<rparr>"]
    validate_file_iff_signature [of "\<lparr>data = [0x47, 0x41, 0x4E, 0x10, 0x00], size_u64 = 5\<rparr>"]
  by (simp add: SIGNATURE_OFFSET_def SIGNATURE_LENGTH_def)

text \<open>
  Claim C8, as amended. \<open>validate_file\<close> has no check of the buffer's size. On a buffer
  shorter than the signature region it returns false, having read inside the buffer
  only, exactly when a byte of the buffer differs from the signature byte at its
  position; on the empty buffer and on any other proper prefix of the signature it
  reads past the end of the buffer.
\<close>

theorem validate_file_short_buffer:
  assumes "length (data buffer) < unat SIGNATURE_OFFSET + unat SIGNATURE_LENGTH"
  shows "validate_file buffer =
           (if \<exists>i < length (data buffer). data buffer ! i \<noteq> ExpectedSignature ! i
            then Inr False else Inl ReadOutOfBounds)"
proof -
  from assms have "length (data buffer) < 4"
    by (simp add: SIGNATURE_OFFSET_def SIGNATURE_LENGTH_def)
  then consider "length (data buffer) = 0" | "length (data buffer) = 1"
    | "length (data buffer) = 2" | "length (data buffer) = 3"
    by linarith
  then show ?thesis
  proof cases
    case 1
    then show ?thesis by (simp add: validate_file_unfold)
  next
    case 2
    then show ?thesis
      by (simp add: validate_file_unfold ExpectedSignature_def)
  next
    case 3
    have "(\<exists>i<2. P i) = (P 0 \<or> P (Suc 0))" for P :: "nat \<Rightarrow> bool"
      by (simp add: numeral_2_eq_2 less_Suc_eq) blast
    with 3 show ?thesis
      by (simp add: validate_file_unfold ExpectedSignature_def)
  next
    case 4
    have "(\<exists>i<3. P i) = (P 0 \<or> P (Suc 0) \<or> P 2)" for P :: "nat \<Rightarrow> bool"
      by (simp add: numeral_3_eq_3 numeral_2_eq_2 less_Suc_eq) blast
    with 4 show ?thesis
      by (simp add: validate_file_unfold ExpectedSignature_def)
  qed
qed

theorem validate_file_short_buffer_witness:
  "validate_file \<lparr>data = [0x47, 0x00], size_u64 = 2\<rparr> = Inr False
   \<and> validate_file \<lparr>data = [0x47, 0x41], size_u64 = 2\<rparr> = Inl ReadOutOfBounds"
proof -
  let ?b1 = "\<lparr>data = [0x47, 0x00], size_u64 = 2\<rparr>"
  let ?b2 = "\<lparr>data = [0x47, 0x41], size_u64 = 2\<rparr>"
  have h1: "length (data ?b1) < unat SIGNATURE_OFFSET + unat SIGNATURE_LENGTH"
    and h2: "length (data ?b2) < unat SIGNATURE_OFFSET + unat SIGNATURE_LENGTH"
    by (simp_all add: SIGNATURE_OFFSET_def SIGNATURE_LENGTH_def)
  have e1: "\<exists>i < length (data ?b1). data ?b1 ! i \<noteq> ExpectedSignature ! i"
    by (rule exI [of _ 1]) (simp add: ExpectedSignature_def)
  have e2: "\<not> (\<exists>i < length (data ?b2). data ?b2 ! i \<noteq> ExpectedSignature ! i)"
  proof -
    have "data ?b2 ! i = ExpectedSignature ! i" if "i < length (data ?b2)" for i
    proof -
      from that have "i = 0 \<or> i = 1" by auto
      then show ?thesis by (auto simp add: ExpectedSignature_def)
    qed
    then show ?thesis by blast
  qed
  from validate_file_short_buffer [OF h1] e1 have "validate_file ?b1 = Inr False"
    by (simp only: if_True)
  moreover from validate_file_short_buffer [OF h2] e2
  have "validate_file ?b2 = Inl ReadOutOfBounds"
    by (simp only: if_False)
  ultimately show ?thesis ..
qed

text \<open>
  The buffer of a failed read is empty, and \<open>validate_file\<close> does not return false on it:
  its first access is outside the buffer.
\<close>

theorem validate_file_failed_read_counterexample:
  "validate_file (readFromFile None) \<noteq> Inr False"
  by (simp add: validate_file_unfold readFromFile_def)

section \<open>The header\<close>

lemma le16_value:
  fixes lo hi :: u8
  shows "unat (ucast ((ucast lo :: u32) OR push_bit 8 (ucast hi :: u32)) :: u16)
           = unat lo + 256 * unat hi"
proof -
  have lo: "unat lo < 2 ^ 8" and hi: "unat hi < 2 ^ 8"
    using unsigned_less [of lo] unsigned_less [of hi] by simp_all
  have disj: "\<not> bit (ucast lo :: u32) n \<or> \<not> bit (push_bit 8 (ucast hi :: u32)) n" for n
    by (auto simp add: bit_simps dest: bit_imp_le_length)
  have "(ucast lo :: u32) OR push_bit 8 (ucast hi :: u32) = ucast lo + push_bit 8 (ucast hi)"
    using disjunctive_add [of "ucast lo :: u32" "push_bit 8 (ucast hi :: u32)"] disj
    by simp
  also have "\<dots> = of_nat (unat lo + 256 * unat hi)"
    by (simp add: push_bit_eq_mult)
  finally have eq: "(ucast lo :: u32) OR push_bit 8 (ucast hi :: u32)
                      = of_nat (unat lo + 256 * unat hi)" .
  define N where "N = unat lo + 256 * unat hi"
  from lo hi have N: "N < 2 ^ 16"
    by (simp add: N_def)
  then have "N < 2 ^ 32"
    by simp
  then have "unat (of_nat N :: u32) = N"
    by (simp add: unat_of_nat)
  with N have "unat (ucast (of_nat N :: u32) :: u16) = N"
    by (simp add: unsigned_ucast_eq take_bit_nat_eq_self)
  then show ?thesis
    unfolding eq N_def .
qed

lemma read_header_values:
  assumes "unat HEIGHT_OFFSET + 2 \<le> length fb"
  shows "\<exists>width height. read_width fb = Inr width \<and> read_height fb = Inr height
           \<and> unat width = unat (fb ! 0x424) + 256 * unat (fb ! 0x425)
           \<and> unat height = unat (fb ! 0x426) + 256 * unat (fb ! 0x427)"
proof -
  from assms have len: "0x428 \<le> length fb"
    by (simp add: HEIGHT_OFFSET_def)
  then have w: "read_width fb = Inr (ucast ((ucast (fb ! 0x424) :: u32)
                    OR push_bit 8 (ucast (fb ! 0x425) :: u32)))"
    by (simp add: read_width_def WIDTH_OFFSET_def rd_def)
  from len have h: "read_height fb = Inr (ucast ((ucast (fb ! 0x426) :: u32)
                    OR push_bit 8 (ucast (fb ! 0x427) :: u32)))"
    by (simp add: read_height_def HEIGHT_OFFSET_def rd_def)
  show ?thesis
    unfolding w h using le16_value by blast
qed

text \<open>
  Claim C7. In every buffer that holds the header, the width is the unsigned 16-bit
  little-endian integer at offset \<open>0x424\<close> and the height the one at offset \<open>0x426\<close>;
  each field is read by its own expression.
\<close>

theorem header_little_endian:
  assumes "unat HEIGHT_OFFSET + 2 \<le> length fb"
  shows "\<exists>width height. read_width fb = Inr width \<and> read_height fb = Inr height
           \<and> unat width = unat (fb ! 0x424) + 256 * unat (fb ! 0x425)
           \<and> unat height = unat (fb ! 0x426) + 256 * unat (fb ! 0x427)"
  using assms by (rule read_header_values)

theorem header_little_endian_witness:
  "\<exists>width height.
      read_width (replicate 0x424 0 @ [0x34, 0x12, 0x02, 0x01]) = Inr width
    \<and> read_height (replicate 0x424 0 @ [0x34, 0x12, 0x02, 0x01]) = Inr height
    \<and> unat width = 0x1234 \<and> unat height = 0x0102"
  using header_little_endian [of "replicate 0x424 0 @ [0x34, 0x12, 0x02, 0x01]"]
  by (simp add: HEIGHT_OFFSET_def nth_append)

subsection \<open>The pixel count\<close>

lemma pixel_count_exact:
  assumes "unat width * unat height < 2 ^ 31"
  shows "\<exists>count. pixel_count width height = Inr count \<and> unat count = unat width * unat height"
proof -
  define n where "n = unat width * unat height"
  have u: "uint width * uint height = int n"
    by (simp add: n_def)
  from assms have n: "n < 2 ^ 31"
    by (simp add: n_def)
  then have "int n < 2 ^ 31" "- (2 ^ 31) \<le> int n"
    by simp_all
  then have "pixel_count width height = Inr (word_of_int (int n))"
    by (simp add: pixel_count_def int_mul_def u)
  moreover from n have "n < 2 ^ 32" by simp
  then have "unat (word_of_int (int n) :: u32) = n"
    by (simp add: unat_of_nat)
  ultimately show ?thesis
    unfolding n_def by blast
qed

lemma pixel_count_Inr:
  assumes "pixel_count width height = Inr count"
  shows "unat count = unat width * unat height"
proof -
  define n where "n = unat width * unat height"
  have u: "uint width * uint height = int n"
    by (simp add: n_def)
  from assms have "int n < 2 ^ 31"
    by (simp add: pixel_count_def int_mul_def u split: if_splits)
  then have "n < 2 ^ 31"
    by simp
  then have "unat width * unat height < 2 ^ 31"
    by (simp only: n_def)
  from pixel_count_exact [OF this] assms show ?thesis
    by auto
qed

lemma pixel_count_alloc:
  assumes "4 * (unat width * unat height) < 2 ^ 32"
  shows "\<exists>count. pixel_count width height = Inr count
           \<and> alloc_pixeldata count = replicate (4 * (unat width * unat height)) 0"
proof -
  define n where "n = unat width * unat height"
  from assms have "4 * n < 2 ^ 32"
    by (simp only: n_def)
  then have "n < 2 ^ 31"
    by simp
  then have "unat width * unat height < 2 ^ 31"
    by (simp only: n_def)
  from pixel_count_exact [OF this] obtain count where
    c: "pixel_count width height = Inr count" "unat count = unat width * unat height"
    by blast
  from assms c(2) have "unat ((ucast PIXEL_STRIDE :: u32) * count) = 4 * (unat width * unat height)"
    by (simp add: PIXEL_STRIDE_def unat_word_ariths)
  with c(1) show ?thesis
    by (simp add: alloc_pixeldata_def)
qed

text \<open>
  Claim C10 fails on the code. The operands of \<^verbatim>\<open>width * height\<close> are promoted to
  \<^verbatim>\<open>int\<close>, so the product of the two largest 16-bit values, 4294836225, is outside
  the range of the multiplication that computes it.
\<close>

theorem pixel_count_signed_overflow:
  "pixel_count 0xFFFF 0xFFFF = Inl SignedOverflow"
  by (simp add: pixel_count_def int_mul_def)

text \<open>
  The size of the allocation is computed in 32 bits as well: for 32768 by 32768 pixels
  the count is exact and the allocation is empty.
\<close>

lemma alloc_pixeldata_wraps:
  "pixel_count 0x8000 0x8000 = Inr 0x40000000 \<and> alloc_pixeldata 0x40000000 = []"
  by (simp add: pixel_count_def int_mul_def alloc_pixeldata_def PIXEL_STRIDE_def)

section \<open>The palette\<close>

lemma palette_loop_result:
  shows "0x46F \<le> length fb \<Longrightarrow> unat i \<le> 16 \<Longrightarrow> length palette = 16 \<Longrightarrow>
         palette_loop fb i palette =
           Inr (map (\<lambda>j. if unat i \<le> j then palette_entry fb j else palette ! j) [0..<16])"
proof (induction fb i palette rule: palette_loop.induct)
  case (1 fb i palette)
  show ?case
  proof (cases "i < ucast NUM_PALETTE_COLORS")
    case True
    then have lt: "unat i < 16"
      by (simp add: NUM_PALETTE_COLORS_def PALETTE_SIZE_def PIXEL_STRIDE_def word_less_nat_alt)
    then have suc: "unat (i + 1) = unat i + 1"
      by (simp add: unat_word_ariths)
    define offset :: u64 where "offset = ucast PALETTE_OFFSET + i * ucast PIXEL_STRIDE"
    from lt have off: "unat offset = 0x430 + 4 * unat i"
      by (simp add: offset_def PALETTE_OFFSET_def PIXEL_STRIDE_def unat_word_ariths)
    then have off0: "unat (offset + 0) = 0x430 + 4 * unat i"
      and off1: "unat (offset + 1) = 0x430 + 4 * unat i + 1"
      and off2: "unat (offset + 2) = 0x430 + 4 * unat i + 2"
      using lt by (simp_all add: unat_word_ariths)
    from lt "1.prems" have r0: "rd fb (unat (offset + 0)) = Inr (fb ! (0x430 + 4 * unat i))"
      and r1: "rd fb (unat (offset + 1)) = Inr (fb ! (0x430 + 4 * unat i + 1))"
      and r2: "rd fb (unat (offset + 2)) = Inr (fb ! (0x430 + 4 * unat i + 2))"
      unfolding off0 off1 off2 by (auto simp add: rd_def)
    let ?p = "palette[unat i := palette_entry fb (unat i)]"
    have step: "palette_loop fb i palette = palette_loop fb (i + 1) ?p"
      by (subst palette_loop.simps)
         (simp only: True if_True Let_def r0 r1 r2 sum.case palette_entry_def
            offset_def [symmetric])
    have "palette_loop fb (i + 1) ?p =
            Inr (map (\<lambda>j. if unat (i + 1) \<le> j then palette_entry fb j else ?p ! j) [0..<16])"
      using "1.IH" [OF True offset_def r0 r1 r2]
        lt "1.prems" suc
      by (simp add: palette_entry_def)
    also have "map (\<lambda>j. if unat (i + 1) \<le> j then palette_entry fb j else ?p ! j) [0..<16]
             = map (\<lambda>j. if unat i \<le> j then palette_entry fb j else palette ! j) [0..<16]"
      using lt "1.prems" by (auto simp add: suc nth_list_update not_less_eq_eq le_antisym)
    finally show ?thesis
      using step by simp
  next
    case False
    then have "16 \<le> unat i"
      by (simp add: NUM_PALETTE_COLORS_def PALETTE_SIZE_def PIXEL_STRIDE_def word_less_nat_alt)
    with "1.prems" have eq: "unat i = 16"
      by simp
    have "map (\<lambda>j. if unat i \<le> j then palette_entry fb j else palette ! j) [0..<16]
            = map (\<lambda>j. palette ! j) [0..<length palette]"
      using "1.prems" by (simp add: eq)
    also have "\<dots> = palette"
      by (rule map_nth)
    finally show ?thesis
      using False by (subst palette_loop.simps) simp
  qed
qed

lemma decode_palette_value:
  assumes "0x46F \<le> length fb"
  shows "\<exists>palette. decode_palette fb = Inr palette \<and> length palette = 16
           \<and> palette ! 0 = (0, 0, 0, 0)
           \<and> (\<forall>i \<in> {1..15}. palette ! i =
                 (fb ! (0x430 + 4 * i), fb ! (0x430 + 4 * i + 1), fb ! (0x430 + 4 * i + 2), 0xFF))"
proof -
  let ?z = "replicate (unat NUM_PALETTE_COLORS) (0, 0, 0, 0) :: rgba list"
  let ?p = "map (\<lambda>j. if unat (1 :: u64) \<le> j then palette_entry fb j else ?z ! j) [0..<16]"
  have n: "unat NUM_PALETTE_COLORS = 16"
    by (simp add: NUM_PALETTE_COLORS_def PALETTE_SIZE_def PIXEL_STRIDE_def)
  have "decode_palette fb = Inr ?p"
    unfolding decode_palette_def using assms
    by (intro palette_loop_result) (simp_all add: n)
  moreover have "length ?p = 16"
    by simp
  moreover have "?p ! 0 = (0, 0, 0, 0)"
    by (simp add: n)
  moreover have "?p ! i = palette_entry fb i" if "i \<in> {1..15}" for i
    using that by simp
  ultimately show ?thesis
    unfolding palette_entry_def by blast
qed

lemma length_sample_file: "length sample_file = 0x474"
  by (simp add: sample_file_def)

lemma sample_file_nth:
  "sample_file ! 0x434 = 0xFF" "sample_file ! 0x435 = 0" "sample_file ! 0x436 = 0"
  "sample_file ! 0x424 = 4" "sample_file ! 0x425 = 0" "sample_file ! 0x426 = 2" "sample_file ! 0x427 = 0"
  "sample_file ! 0x470 = 0x10" "sample_file ! 0x471 = 1" "sample_file ! 0x472 = 0x10" "sample_file ! 0x473 = 1"
  by (simp_all add: sample_file_def nth_append)

lemma sample_file_regions:
  "take 4 sample_file = [0x47, 0x41, 0x4E, 0x10]"
  "take 4 (drop 0x424 sample_file) = [0x04, 0x00, 0x02, 0x00]"
  "take 3 (drop 0x434 sample_file) = [0xFF, 0x00, 0x00]"
  "take 4 (drop 0x470 sample_file) = [0x10, 0x01, 0x10, 0x01]"
  by (simp_all add: sample_file_def)

text \<open>
  Claim C3. For every buffer that holds the palette region, the decoded palette has 16
  entries; entry 0 is \<open>(0, 0, 0, 0)\<close> whatever the bytes of slot 0 are, and entry \<open>i\<close> in
  \<open>[1, 15]\<close> has its R, G and B from the three bytes at \<open>0x430 + 4 * i\<close> and alpha 255
  whatever the fourth byte of the slot is.
\<close>

theorem decode_palette_entries:
  assumes "0x46F \<le> length fb"
  shows "\<exists>palette. decode_palette fb = Inr palette \<and> length palette = 16
           \<and> palette ! 0 = (0, 0, 0, 0)
           \<and> (\<forall>i \<in> {1..15}. palette ! i =
                 (fb ! (0x430 + 4 * i), fb ! (0x430 + 4 * i + 1), fb ! (0x430 + 4 * i + 2), 0xFF))"
  using assms by (rule decode_palette_value)

theorem decode_palette_entries_witness:
  "\<exists>palette. decode_palette sample_file = Inr palette \<and> length palette = 16
      \<and> palette ! 0 = (0, 0, 0, 0) \<and> palette ! 1 = (0xFF, 0, 0, 0xFF)"
proof -
  have "0x46F \<le> length sample_file"
    by (simp add: length_sample_file)
  from decode_palette_entries [OF this] obtain palette where
    p: "decode_palette sample_file = Inr palette" "length palette = 16"
       "palette ! 0 = (0, 0, 0, 0)"
       "\<forall>i \<in> {1..15}. palette ! i =
           (sample_file ! (0x430 + 4 * i), sample_file ! (0x430 + 4 * i + 1),
            sample_file ! (0x430 + 4 * i + 2), 0xFF)"
    by blast
  from p(4) have "palette ! 1 = (sample_file ! 0x434, sample_file ! 0x435, sample_file ! 0x436, 0xFF)"
    by simp
  with p show ?thesis
    by (simp add: sample_file_nth)
qed

section \<open>The pixel loops\<close>

subsection \<open>The iterations and the body, over natural numbers\<close>

lemma unat_ucast_u16: "unat (ucast (w :: u16) :: u64) = unat w"
proof -
  have "unat w < 2 ^ 16"
    using unsigned_less [of w] by simp
  then show ?thesis
    by (simp add: unsigned_ucast_eq take_bit_nat_eq_self)
qed

lemma unat_u16_bound: "unat (w :: u16) < 65536"
  using unsigned_less [of w] by simp

lemma x_loop_eq:
  "x_loop width y x =
     map (\<lambda>k. (y, x + 2 * of_nat k)) [0..<(unat width + 1 - unat x) div 2]"
proof (induction width y x rule: x_loop.induct)
  case (1 width y x)
  show ?case
  proof (cases "x < ucast width")
    case True
    then have lt: "unat x < unat width"
      by (simp add: word_less_nat_alt unat_ucast_u16)
    with unat_u16_bound [of width] have suc: "unat (x + 2) = unat x + 2"
      by (simp add: unat_word_ariths)
    from lt have n: "(unat width + 1 - unat x) div 2 = Suc ((unat width + 1 - unat (x + 2)) div 2)"
      unfolding suc by linarith
    have "x_loop width y x = (y, x) # x_loop width y (x + 2)"
      using True by (subst x_loop.simps) simp
    also have "x_loop width y (x + 2) =
        map (\<lambda>k. (y, x + 2 + 2 * of_nat k)) [0..<(unat width + 1 - unat (x + 2)) div 2]"
      using "1.IH" [OF True] .
    finally show ?thesis
      unfolding n map_upt_Suc by (simp add: algebra_simps)
  next
    case False
    then have "unat width \<le> unat x"
      by (simp add: word_less_nat_alt unat_ucast_u16)
    then have "(unat width + 1 - unat x) div 2 = 0"
      by simp
    with False show ?thesis
      by (subst x_loop.simps) simp
  qed
qed

lemma y_loop_eq:
  "y_loop width height y =
     concat (map (\<lambda>j. x_loop width (y + of_nat j) 0) [0..<unat height - unat y])"
proof (induction width height y rule: y_loop.induct)
  case (1 width height y)
  show ?case
  proof (cases "y < ucast height")
    case True
    then have lt: "unat y < unat height"
      by (simp add: word_less_nat_alt unat_ucast_u16)
    with unat_u16_bound [of height] have suc: "unat (y + 1) = unat y + 1"
      by (simp add: unat_word_ariths)
    from lt have n: "unat height - unat y = Suc (unat height - unat (y + 1))"
      unfolding suc by linarith
    have "y_loop width height y = x_loop width y 0 @ y_loop width height (y + 1)"
      using True by (subst y_loop.simps) simp
    also have "y_loop width height (y + 1) =
        concat (map (\<lambda>j. x_loop width (y + 1 + of_nat j) 0) [0..<unat height - unat (y + 1)])"
      using "1.IH" [OF True] .
    finally show ?thesis
      unfolding n map_upt_Suc by (simp add: algebra_simps)
  next
    case False
    then have "unat height \<le> unat y"
      by (simp add: word_less_nat_alt unat_ucast_u16)
    with False show ?thesis
      by (subst y_loop.simps) simp
  qed
qed

lemma filter_even_upt: "filter even [0..<n] = map (\<lambda>k. 2 * k) [0..<(n + 1) div 2]"
proof (induction n)
  case 0
  show ?case by simp
next
  case (Suc n)
  show ?case
  proof (cases "even n")
    case True
    then have "(Suc n + 1) div 2 = Suc ((n + 1) div 2)" "2 * ((n + 1) div 2) = n"
      by (auto elim: evenE)
    with Suc True show ?thesis by simp
  next
    case False
    then have "(Suc n + 1) div 2 = (n + 1) div 2"
      by (auto elim: oddE)
    with Suc False show ?thesis by simp
  qed
qed

lemma concat_map_if:
  "concat (map (\<lambda>x. if P x then [f x] else []) xs) = map f (filter P xs)"
  by (induction xs) simp_all

lemma spec_iterations_eq:
  "spec_iterations width height =
     concat (map (\<lambda>y. map (\<lambda>k. (y, 2 * k)) [0..<(width + 1) div 2]) [0..<height])"
  unfolding spec_iterations_def concat_map_if filter_even_upt
  by (simp add: comp_def)

lemma y_loop_iterations:
  "y_loop width height 0 =
     map (\<lambda>(y, x). (of_nat y, of_nat x)) (spec_iterations (unat width) (unat height))"
  unfolding spec_iterations_eq y_loop_eq x_loop_eq
  by (simp add: map_concat comp_def)

lemma pixel_pair_spec:
  assumes "y < 65536" and "x < 65536"
  shows "pixel_pair fb palette width (of_nat y, of_nat x) pixeldata =
           spec_pixel_pair fb palette (unat width) (y, x) pixeldata"
proof -
  define i1 where "i1 = y * unat width + x"
  have "y * unat width \<le> 65535 * 65535"
    using assms unat_u16_bound [of width] by (intro mult_mono) simp_all
  with assms have b: "i1 < 4294967296"
    by (simp add: i1_def)
  have idx: "pixel_index width (of_nat y, of_nat x) = (of_nat i1 :: u64)"
    by (simp add: pixel_index_def i1_def)
  from b have u1: "unat (of_nat i1 :: u64) = i1"
    by (simp add: unat_of_nat)
  from b have rdi: "unat (ucast IMAGE_OFFSET + drop_bit 1 (of_nat i1 :: u64)) = 0x470 + i1 div 2"
    by (simp add: IMAGE_OFFSET_def unat_word_ariths unat_drop_bit_eq drop_bit_eq_div u1)
  from b have d1: "unat ((of_nat i1 :: u64) * ucast PIXEL_STRIDE) = i1 * 4"
    by (simp add: PIXEL_STRIDE_def unat_word_ariths u1)
  from b have d2: "unat (((of_nat i1 :: u64) + 1) * ucast PIXEL_STRIDE) = (i1 + 1) * 4"
    by (simp add: PIXEL_STRIDE_def unat_word_ariths u1)
  have lo: "unat (byte AND 0x0F) = unat byte mod 16" for byte :: u8
  proof -
    have "byte AND 0x0F = take_bit 4 byte"
      by (simp add: take_bit_eq_mask mask_eq_exp_minus_1)
    then show ?thesis
      by (simp add: unsigned_take_bit_eq take_bit_eq_mod unat_mod_distrib)
  qed
  have hi: "unat (drop_bit 4 byte) = unat byte div 16" for byte :: u8
    by (simp add: unat_drop_bit_eq drop_bit_eq_div unat_div_distrib)
  have s: "unat PIXEL_STRIDE = 4"
    by (simp add: PIXEL_STRIDE_def)
  show ?thesis
    unfolding pixel_pair_def spec_pixel_pair_def Let_def idx rdi d1 d2 lo hi s prod.case
      i1_def [symmetric] ..
qed

lemma pixel_index_nat:
  assumes "y < 65536" and "x < 65536"
  shows "unat (pixel_index width (of_nat y, of_nat x)) = y * unat width + x"
    and "unat (pixel_index width (of_nat y, of_nat x) + 1) = y * unat width + x + 1"
proof -
  define i1 where "i1 = y * unat width + x"
  have "y * unat width \<le> 65535 * 65535"
    using assms unat_u16_bound [of width] by (intro mult_mono) simp_all
  with assms have b: "i1 < 4294967296"
    by (simp add: i1_def)
  have idx: "pixel_index width (of_nat y, of_nat x) = (of_nat i1 :: u64)"
    by (simp add: pixel_index_def i1_def)
  from b have e: "unat (of_nat i1 :: u64) = i1"
    by (simp add: unat_of_nat)
  show "unat (pixel_index width (of_nat y, of_nat x)) = y * unat width + x"
    by (simp only: idx e) (simp only: i1_def)
  from b have "unat ((of_nat i1 :: u64) + 1) = i1 + 1"
    by (simp add: unat_word_ariths unat_of_nat)
  then show "unat (pixel_index width (of_nat y, of_nat x) + 1) = y * unat width + x + 1"
    by (simp only: idx) (simp only: i1_def)
qed

lemma for_each_append:
  "for_each body (xs @ ys) s =
     (case for_each body xs s of Inl e \<Rightarrow> Inl e | Inr s' \<Rightarrow> for_each body ys s')"
  by (induction xs arbitrary: s) (simp_all split: sum.splits)

lemma for_each_map: "for_each body (map g xs) s = for_each (\<lambda>a. body (g a)) xs s"
  by (induction xs arbitrary: s) (simp_all split: sum.splits)

lemma for_each_cong:
  "(\<And>a. a \<in> set xs \<Longrightarrow> f a = g a) \<Longrightarrow> for_each f xs s = for_each g xs s"
  by (induction xs arbitrary: s) (simp_all split: sum.splits)

lemma set_spec_iterations:
  "(y, x) \<in> set (spec_iterations width height) \<Longrightarrow> y < height \<and> x < width"
  by (auto simp add: spec_iterations_def split: if_splits)

lemma unpack_loops_spec:
  "unpack_loops fb palette width height pixeldata =
     spec_unpack_loops fb palette (unat width) (unat height) pixeldata"
proof -
  have "pixel_pair fb palette width (case a of (y, x) \<Rightarrow> (of_nat y, of_nat x)) =
          spec_pixel_pair fb palette (unat width) a"
    if "a \<in> set (spec_iterations (unat width) (unat height))" for a
  proof -
    obtain y x where a: "a = (y, x)"
      by (cases a)
    with that have "y < unat height" "x < unat width"
      using set_spec_iterations by blast+
    with unat_u16_bound [of width] unat_u16_bound [of height]
    have "y < 65536" "x < 65536"
      by simp_all
    then show ?thesis
      unfolding a by (auto simp add: pixel_pair_spec)
  qed
  then show ?thesis
    unfolding unpack_loops_def spec_unpack_loops_def y_loop_iterations for_each_map
    by (rule for_each_cong)
qed

text \<open>
  Claim C1. For every buffer, width, height, palette and pixel buffer, the loops of the
  code (64-bit index arithmetic, shifts and masks) do what the specification's
  algorithm does: they run rows \<open>y\<close> in \<open>[0, height)\<close> and columns \<open>x\<close> in \<open>[0, width)\<close> in
  steps of 2, read the byte at \<open>0x470 + (i1 >> 1)\<close> for \<open>i1 = y * width + x\<close>, and copy
  the palette colour of its low nibble to offset \<open>i1 * 4\<close> and that of its high nibble to
  offset \<open>i2 * 4\<close>, \<open>i2 = i1 + 1\<close>; the two also fail on the same inputs.
\<close>

theorem unpack_loops_refines_spec:
  "unpack_loops fb palette width height pixeldata =
     spec_unpack_loops fb palette (unat width) (unat height) pixeldata"
  by (rule unpack_loops_spec)

subsection \<open>The linear indices\<close>

lemma spec_pixel_pair_at:
  "spec_pixel_pair fb palette width (y, x) = pair_at fb palette (y * width + x)"
  unfolding pair_at_def spec_pixel_pair_def Let_def prod.case ..

lemma spec_unpack_loops_linear:
  "spec_unpack_loops fb palette width height pixels =
     for_each (pair_at fb palette) (linear_indices width height) pixels"
  unfolding spec_unpack_loops_def linear_indices_def for_each_map
  by (rule for_each_cong) (auto simp add: spec_pixel_pair_at)

lemma linear_indices_eq:
  "linear_indices width height =
     concat (map (\<lambda>y. map (\<lambda>k. y * width + 2 * k) [0..<(width + 1) div 2]) [0..<height])"
  unfolding linear_indices_def spec_iterations_eq
  by (simp add: map_concat comp_def)

lemma upt_mult_Suc: "[0..<m * Suc h] = [0..<m * h] @ map (\<lambda>k. m * h + k) [0..<m]"
proof -
  have "[0..<m * h + m] = [0..<m * h] @ [m * h..<m * h + m]"
    by (rule upt_add_eq_append) simp
  moreover have "[m * h..<m * h + m] = map (\<lambda>k. m * h + k) [0..<m]"
    by (simp add: map_add_upt add.commute)
  ultimately show ?thesis
    by (simp add: add.commute)
qed

lemma linear_indices_even:
  assumes "even width"
  shows "linear_indices width height = map (\<lambda>j. 2 * j) [0..<(width * height) div 2]"
proof -
  from assms obtain m where w: "width = 2 * m"
    by (auto elim: evenE)
  have "concat (map (\<lambda>y. map (\<lambda>k. y * (2 * m) + 2 * k) [0..<m]) [0..<height])
          = map (\<lambda>j. 2 * j) [0..<m * height]"
  proof (induction height)
    case 0
    show ?case by simp
  next
    case (Suc h)
    have "map (\<lambda>k. h * (2 * m) + 2 * k) [0..<m] = map (\<lambda>j. 2 * j) (map (\<lambda>k. m * h + k) [0..<m])"
      by (simp add: comp_def algebra_simps)
    with Suc show ?case
      unfolding upt_mult_Suc by simp
  qed
  then show ?thesis
    unfolding linear_indices_eq w by simp
qed

lemma linear_indices_odd:
  assumes "odd width"
  shows "\<exists>front. linear_indices width (Suc h) = front @ [width * Suc h - 1]
           \<and> (\<forall>i \<in> set front. i + 2 \<le> width * Suc h)"
proof -
  from assms obtain m where w: "width = Suc (2 * m)"
    by (auto elim: oddE)
  let ?row = "\<lambda>y. map (\<lambda>k. y * width + 2 * k) [0..<(width + 1) div 2]"
  let ?front = "concat (map ?row [0..<h]) @ map (\<lambda>k. h * width + 2 * k) [0..<m]"
  have half: "(width + 1) div 2 = Suc m"
    by (simp add: w)
  have "linear_indices width (Suc h) = concat (map ?row [0..<h]) @ ?row h"
    unfolding linear_indices_eq by simp
  also have "?row h = map (\<lambda>k. h * width + 2 * k) [0..<m] @ [h * width + 2 * m]"
    unfolding half by simp
  also have "h * width + 2 * m = width * Suc h - 1"
    by (simp add: w)
  finally have eq: "linear_indices width (Suc h) = ?front @ [width * Suc h - 1]"
    by simp
  have e: "width * Suc h = h * width + width"
    by (simp add: mult.commute)
  have "i + 2 \<le> width * Suc h" if "i \<in> set ?front" for i
  proof -
    from that consider y k where "y < h" "k < (width + 1) div 2" "i = y * width + 2 * k"
      | k where "k < m" "i = h * width + 2 * k"
      by auto
    then show ?thesis
    proof cases
      case 1
      from 1(1) have "Suc y * width \<le> h * width"
        by (intro mult_le_mono1) simp
      then have a: "y * width + width \<le> h * width"
        by simp
      from 1(2) have k: "2 * k + 2 \<le> width + 1"
        by linarith
      from assms have p: "0 < width"
        by (auto elim: oddE)
      from a k p show ?thesis
        unfolding e 1(3) by linarith
    next
      case 2
      then have "2 * k + 2 \<le> width"
        by (simp add: w)
      with 2 show ?thesis
        unfolding e by linarith
    qed
  qed
  with eq show ?thesis
    by blast
qed

lemma last_index_mem:
  assumes "0 < width" and "0 < height"
  shows "\<exists>i \<in> set (linear_indices width height). width * height \<le> i + 2"
proof -
  from assms obtain h where h: "height = Suc h"
    by (cases height) auto
  let ?k = "(width + 1) div 2 - 1"
  from assms(1) have k: "?k < (width + 1) div 2" and w: "width \<le> 2 * ?k + 2"
    by linarith+
  have "h * width + 2 * ?k \<in> set (linear_indices width height)"
    unfolding linear_indices_eq h using k by auto
  moreover from w have "width * height \<le> h * width + 2 * ?k + 2"
    by (simp add: h mult.commute)
  ultimately show ?thesis
    by blast
qed

lemma concat_pairs_upt: "concat (map (\<lambda>j. [2 * j, Suc (2 * j)]) [0..<n]) = [0..<2 * n]"
  by (induction n) simp_all

lemma written_pixels_linear:
  "concat (map (\<lambda>yx. [unat (pixel_index width yx), unat (pixel_index width yx + 1)])
             (y_loop width height 0))
     = concat (map (\<lambda>i. [i, i + 1]) (linear_indices (unat width) (unat height)))"
proof -
  let ?its = "spec_iterations (unat width) (unat height)"
  have "((\<lambda>yx. [unat (pixel_index width yx), unat (pixel_index width yx + 1)])
           \<circ> (\<lambda>(y, x). (of_nat y, of_nat x))) a
        = ((\<lambda>i. [i, i + 1]) \<circ> (\<lambda>(y, x). y * unat width + x)) a"
    if "a \<in> set ?its" for a
  proof -
    obtain y x where a: "a = (y, x)"
      by (cases a)
    with that have "y < unat height" "x < unat width"
      using set_spec_iterations by blast+
    with unat_u16_bound [of width] unat_u16_bound [of height]
    have "y < 65536" "x < 65536"
      by simp_all
    then show ?thesis
      unfolding a by (simp add: pixel_index_nat)
  qed
  then have "map ((\<lambda>yx. [unat (pixel_index width yx), unat (pixel_index width yx + 1)])
                   \<circ> (\<lambda>(y, x). (of_nat y, of_nat x))) ?its
           = map ((\<lambda>i. [i, i + 1]) \<circ> (\<lambda>(y, x). y * unat width + x)) ?its"
    by (intro map_cong refl)
  then show ?thesis
    unfolding y_loop_iterations linear_indices_def map_map by (simp only:)
qed

lemma written_pixels_even:
  assumes "even (unat width)"
  shows "concat (map (\<lambda>yx. [unat (pixel_index width yx), unat (pixel_index width yx + 1)])
             (y_loop width height 0))
         = [0..<unat width * unat height]"
proof -
  from assms have "2 * (unat width * unat height div 2) = unat width * unat height"
    by simp
  then show ?thesis
    unfolding written_pixels_linear linear_indices_even [OF assms]
    by (simp add: comp_def concat_pairs_upt)
qed

subsection \<open>The writes\<close>

lemma length_bytes_of: "length (bytes_of c) = 4"
  by (cases c) (simp add: bytes_of_def)

lemma memcpy_ok:
  "off + 4 \<le> length pd \<Longrightarrow>
   memcpy pd off (bytes_of c) 4 = Inr (take off pd @ bytes_of c @ drop (off + 4) pd)"
  by (simp add: memcpy_def length_bytes_of)

lemma memcpy_Inr:
  "memcpy dst off src n = Inr r \<Longrightarrow> off + n \<le> length dst \<and> length r = length dst"
  by (auto simp add: memcpy_def split: if_splits)

lemma unat_u8_div16: "unat (b :: u8) div 16 < 16"
proof -
  have "unat b < 256"
    using unsigned_less [of b] by simp
  then show ?thesis
    by simp
qed

lemma pair_at_unfold:
  assumes "0x470 + i div 2 < length fb" and "length palette = 16"
  shows "pair_at fb palette i pd =
     (case memcpy pd (4 * i) (bytes_of (palette ! (unat (fb ! (0x470 + i div 2)) mod 16))) 4 of
        Inl e \<Rightarrow> Inl e
      | Inr pd1 \<Rightarrow>
          memcpy pd1 (4 * i + 4) (bytes_of (palette ! (unat (fb ! (0x470 + i div 2)) div 16))) 4)"
proof -
  have r: "rd fb (0x470 + i div 2) = Inr (fb ! (0x470 + i div 2))"
    using assms(1) by (simp add: rd_def)
  have lo: "row_at palette (unat (fb ! (0x470 + i div 2)) mod 16)
              = Inr (palette ! (unat (fb ! (0x470 + i div 2)) mod 16))"
    using assms(2) by (simp add: row_at_def)
  have hi: "row_at palette (unat (fb ! (0x470 + i div 2)) div 16)
              = Inr (palette ! (unat (fb ! (0x470 + i div 2)) div 16))"
    using assms(2) unat_u8_div16 by (simp add: row_at_def)
  have m: "i * 4 = 4 * i" "(i + 1) * 4 = 4 * i + 4"
    by simp_all
  show ?thesis
    unfolding pair_at_def spec_pixel_pair_def Let_def prod.case r lo hi sum.case m ..
qed

lemma pair_at_ok:
  assumes "0x470 + i div 2 < length fb" and "length palette = 16" and "4 * i + 8 \<le> length pd"
  shows "pair_at fb palette i pd =
           Inr (take (4 * i) pd
                @ bytes_of (palette ! (unat (fb ! (0x470 + i div 2)) mod 16))
                @ bytes_of (palette ! (unat (fb ! (0x470 + i div 2)) div 16))
                @ drop (4 * i + 8) pd)"
proof -
  let ?c1 = "bytes_of (palette ! (unat (fb ! (0x470 + i div 2)) mod 16))"
  let ?c2 = "bytes_of (palette ! (unat (fb ! (0x470 + i div 2)) div 16))"
  let ?pd1 = "take (4 * i) pd @ ?c1 @ drop (4 * i + 4) pd"
  from assms(3) have 1: "memcpy pd (4 * i) ?c1 4 = Inr ?pd1"
    by (intro memcpy_ok) simp
  from assms(3) have len: "length ?pd1 = length pd"
    by (simp add: length_bytes_of)
  with assms(3) have 2: "memcpy ?pd1 (4 * i + 4) ?c2 4
                          = Inr (take (4 * i + 4) ?pd1 @ ?c2 @ drop (4 * i + 4 + 4) ?pd1)"
    by (intro memcpy_ok) simp
  from assms(3) have t: "take (4 * i + 4) ?pd1 = take (4 * i) pd @ ?c1"
    by (simp add: length_bytes_of)
  from assms(3) have d: "drop (4 * i + 4 + 4) ?pd1 = drop (4 * i + 8) pd"
    by (simp add: length_bytes_of add.commute)
  show ?thesis
    unfolding pair_at_unfold [OF assms(1,2)] 1 sum.case 2 t d by simp
qed

lemma pair_at_overrun:
  assumes "0x470 + i div 2 < length fb" and "length palette = 16"
    and "4 * i + 4 \<le> length pd" and "length pd < 4 * i + 8"
  shows "pair_at fb palette i pd = Inl (WriteOutOfBounds (4 * i + 4))"
proof -
  let ?c1 = "bytes_of (palette ! (unat (fb ! (0x470 + i div 2)) mod 16))"
  let ?pd1 = "take (4 * i) pd @ ?c1 @ drop (4 * i + 4) pd"
  from assms(3) have 1: "memcpy pd (4 * i) ?c1 4 = Inr ?pd1"
    by (intro memcpy_ok) simp
  from assms(3) have len: "length ?pd1 = length pd"
    by (simp add: length_bytes_of)
  with assms(4) have 2: "memcpy ?pd1 (4 * i + 4) c 4 = Inl (WriteOutOfBounds (4 * i + 4))"
    if "length c = 4" for c
    using that by (simp add: memcpy_def)
  show ?thesis
    unfolding pair_at_unfold [OF assms(1,2)] 1 sum.case
    by (rule 2) (rule length_bytes_of)
qed

lemma pair_at_Inr:
  assumes "pair_at fb palette i pd = Inr pd'"
  shows "length pd' = length pd \<and> 4 * i + 8 \<le> length pd"
proof -
  from assms obtain c1 c2 pd1 where
    1: "memcpy pd (i * 4) c1 4 = Inr pd1" and 2: "memcpy pd1 ((i + 1) * 4) c2 4 = Inr pd'"
    by (auto simp add: pair_at_def split: sum.splits)
  from memcpy_Inr [OF 1] memcpy_Inr [OF 2] show ?thesis
    by simp
qed

lemma for_each_pair_at_Inr:
  "for_each (pair_at fb palette) is pd = Inr pd' \<Longrightarrow>
   length pd' = length pd \<and> (\<forall>i \<in> set is. 4 * i + 8 \<le> length pd)"
proof (induction "is" arbitrary: pd)
  case Nil
  then show ?case by simp
next
  case (Cons i "is")
  from Cons.prems obtain pd1 where
    1: "pair_at fb palette i pd = Inr pd1" and 2: "for_each (pair_at fb palette) is pd1 = Inr pd'"
    by (auto split: sum.splits)
  from pair_at_Inr [OF 1] Cons.IH [OF 2] show ?case
    by simp
qed

lemma for_each_pair_at_ok:
  assumes "length palette = 16"
  shows "(\<forall>i \<in> set is. 0x470 + i div 2 < length fb \<and> 4 * i + 8 \<le> length pd) \<Longrightarrow>
         \<exists>pd'. for_each (pair_at fb palette) is pd = Inr pd' \<and> length pd' = length pd"
proof (induction "is" arbitrary: pd)
  case Nil
  then show ?case by simp
next
  case (Cons i "is")
  then have r: "0x470 + i div 2 < length fb" and l: "4 * i + 8 \<le> length pd"
    by simp_all
  from pair_at_ok [OF r assms l] obtain pd1 where 1: "pair_at fb palette i pd = Inr pd1"
    by blast
  from pair_at_Inr [OF 1] have len: "length pd1 = length pd"
    by simp
  with Cons.prems have "\<forall>i \<in> set is. 0x470 + i div 2 < length fb \<and> 4 * i + 8 \<le> length pd1"
    by simp
  from Cons.IH [OF this] 1 len show ?case
    by simp
qed

lemma expected_pixels_Suc:
  "expected_pixels fb palette (Suc n) =
     expected_pixels fb palette n @ bytes_of (palette ! palette_index_of fb n)"
  by (simp add: expected_pixels_def)

lemma length_expected_pixels: "length (expected_pixels fb palette n) = 4 * n"
  by (induction n) (simp_all add: expected_pixels_Suc length_bytes_of, simp add: expected_pixels_def)

lemma pairs_fill:
  assumes "0x470 + n \<le> length fb" and "length palette = 16" and "8 * n \<le> length pd"
  shows "for_each (pair_at fb palette) (map (\<lambda>j. 2 * j) [0..<n]) pd =
           Inr (expected_pixels fb palette (2 * n) @ drop (8 * n) pd)"
  using assms
proof (induction n)
  case 0
  show ?case by (simp add: expected_pixels_def)
next
  case (Suc n)
  let ?s = "expected_pixels fb palette (2 * n) @ drop (8 * n) pd"
  from Suc have IH: "for_each (pair_at fb palette) (map (\<lambda>j. 2 * j) [0..<n]) pd = Inr ?s"
    by simp
  from Suc.prems have r: "0x470 + (2 * n) div 2 < length fb"
    by simp
  from Suc.prems have l: "4 * (2 * n) + 8 \<le> length ?s"
    by (simp add: length_expected_pixels)
  have t: "take (4 * (2 * n)) ?s = expected_pixels fb palette (2 * n)"
    by (simp add: length_expected_pixels)
  have d: "drop (4 * (2 * n) + 8) ?s = drop (8 * Suc n) pd"
    by (simp add: length_expected_pixels add.commute)
  have i0: "palette_index_of fb (2 * n) = unat (fb ! (0x470 + (2 * n) div 2)) mod 16"
    by (simp add: palette_index_of_def)
  have i1: "palette_index_of fb (Suc (2 * n)) = unat (fb ! (0x470 + (2 * n) div 2)) div 16"
    by (simp add: palette_index_of_def)
  have e: "expected_pixels fb palette (2 * Suc n) =
            expected_pixels fb palette (2 * n)
            @ bytes_of (palette ! (unat (fb ! (0x470 + (2 * n) div 2)) mod 16))
            @ bytes_of (palette ! (unat (fb ! (0x470 + (2 * n) div 2)) div 16))"
    by (simp add: expected_pixels_Suc i0 i1)
  show ?case
    unfolding upt_Suc_append [OF le0] map_append for_each_append IH sum.case list.map
      for_each.simps pair_at_ok [OF r Suc.prems(2) l] t d e
    by simp
qed

subsection \<open>The result of unpack\<close>

lemma unpack_even:
  assumes "even (unat width)"
    and "4 * (unat width * unat height) < 2 ^ 32"
    and "0x470 + unat width * unat height div 2 \<le> length fb"
    and "length palette = 16"
  shows "unpack fb palette width height =
           Inr (expected_pixels fb palette (unat width * unat height))"
proof -
  let ?n = "unat width * unat height div 2"
  from assms(1) have n: "2 * ?n = unat width * unat height"
    by simp
  then have n8: "8 * ?n = 4 * (unat width * unat height)"
    by simp
  from pixel_count_alloc [OF assms(2)] obtain count where
    c: "pixel_count width height = Inr count"
       "alloc_pixeldata count = replicate (4 * (unat width * unat height)) 0"
    by blast
  have "for_each (pair_at fb palette) (map (\<lambda>j. 2 * j) [0..<?n])
          (replicate (4 * (unat width * unat height)) 0)
        = Inr (expected_pixels fb palette (2 * ?n)
               @ drop (8 * ?n) (replicate (4 * (unat width * unat height)) 0))"
    using assms(3,4) n8 by (intro pairs_fill) simp_all
  then show ?thesis
    unfolding unpack_def c sum.case unpack_loops_spec spec_unpack_loops_linear
      linear_indices_even [OF assms(1)] n n8
    by simp
qed

lemma unpack_Inr_length:
  assumes "unpack fb palette width height = Inr pd"
  shows "length pd = 4 * (unat width * unat height)"
proof -
  define n where "n = unat width * unat height"
  from assms obtain count where
    c: "pixel_count width height = Inr count"
    and l: "unpack_loops fb palette width height (alloc_pixeldata count) = Inr pd"
    by (auto simp add: unpack_def split: sum.splits)
  from pixel_count_Inr [OF c] have "unat count = n"
    by (simp add: n_def)
  then have a: "length (alloc_pixeldata count) = (4 * n) mod 2 ^ 32"
    by (simp add: alloc_pixeldata_def PIXEL_STRIDE_def unat_word_ariths)
  from l have "for_each (pair_at fb palette) (linear_indices (unat width) (unat height))
                 (alloc_pixeldata count) = Inr pd"
    by (simp only: unpack_loops_spec spec_unpack_loops_linear)
  from for_each_pair_at_Inr [OF this] a
  have len: "length pd = (4 * n) mod 2 ^ 32"
    and b: "\<forall>i \<in> set (linear_indices (unat width) (unat height)). 4 * i + 8 \<le> (4 * n) mod 2 ^ 32"
    by simp_all
  show ?thesis
  proof (cases "0 < unat width \<and> 0 < unat height")
    case True
    with last_index_mem obtain i where
      "i \<in> set (linear_indices (unat width) (unat height))" "n \<le> i + 2"
      unfolding n_def by blast
    with b have "4 * n \<le> (4 * n) mod 2 ^ 32"
      by fastforce
    moreover have "(4 * n) mod 2 ^ 32 \<le> 4 * n"
      by (rule mod_less_eq_dividend)
    ultimately show ?thesis
      using len unfolding n_def by linarith
  next
    case False
    then have "n = 0"
      by (auto simp add: n_def)
    with len show ?thesis
      unfolding n_def by simp
  qed
qed

lemma unpack_odd_overrun:
  assumes "odd (unat width)" and "0 < unat height"
    and "4 * (unat width * unat height) < 2 ^ 32"
    and "0x470 + (unat width * unat height - 1) div 2 < length fb"
    and "length palette = 16"
  shows "unpack fb palette width height =
           Inl (WriteOutOfBounds (4 * (unat width * unat height)))"
proof -
  define n where "n = unat width * unat height"
  from assms(1) have "0 < unat width"
    by (auto elim: oddE)
  with assms(2) have n0: "0 < n"
    by (simp add: n_def)
  from assms(2) obtain h where h: "unat height = Suc h"
    by (cases "unat height") auto
  from linear_indices_odd [OF assms(1), of h] obtain front where
    f: "linear_indices (unat width) (unat height) = front @ [n - 1]"
    and b: "\<forall>i \<in> set front. i + 2 \<le> n"
    unfolding h [symmetric] n_def by blast
  from pixel_count_alloc [OF assms(3)] obtain count where
    c: "pixel_count width height = Inr count" "alloc_pixeldata count = replicate (4 * n) 0"
    unfolding n_def by blast
  have "0x470 + i div 2 < length fb \<and> 4 * i + 8 \<le> length (replicate (4 * n) (0 :: u8))"
    if "i \<in> set front" for i
  proof -
    from that b have i: "i + 2 \<le> n"
      by blast
    then have "i div 2 \<le> (n - 1) div 2"
      by (intro div_le_mono) simp
    with assms(4) i show ?thesis
      unfolding n_def [symmetric] by simp
  qed
  then have "\<forall>i \<in> set front. 0x470 + i div 2 < length fb
               \<and> 4 * i + 8 \<le> length (replicate (4 * n) (0 :: u8))"
    by blast
  from for_each_pair_at_ok [OF assms(5) this] obtain pd' where
    1: "for_each (pair_at fb palette) front (replicate (4 * n) 0) = Inr pd'"
    and len: "length pd' = 4 * n"
    by auto
  from n0 len have "4 * (n - 1) + 4 \<le> length pd'" "length pd' < 4 * (n - 1) + 8"
    by simp_all
  with assms(4,5) have "pair_at fb palette (n - 1) pd' = Inl (WriteOutOfBounds (4 * (n - 1) + 4))"
    unfolding n_def [symmetric] by (intro pair_at_overrun)
  moreover from n0 have "4 * (n - 1) + 4 = 4 * n"
    by simp
  ultimately have 2: "pair_at fb palette (n - 1) pd' = Inl (WriteOutOfBounds (4 * n))"
    by simp
  show ?thesis
    unfolding unpack_def c sum.case unpack_loops_spec spec_unpack_loops_linear f
      for_each_append 1 n_def [symmetric] for_each.simps 2 ..
qed

lemma x_loop_last:
  assumes "odd (unat width)"
  shows "x_loop width y 0 \<noteq> [] \<and> last (x_loop width y 0) = (y, of_nat (unat width - 1))"
proof -
  from assms obtain m where w: "unat width = Suc (2 * m)"
    by (auto elim: oddE)
  have "x_loop width y 0 = map (\<lambda>k. (y, 2 * of_nat k)) [0..<Suc m]"
    unfolding x_loop_eq by (simp add: w)
  then show ?thesis
    by (simp add: w)
qed

lemma upt_8: "[0..<8] = [0, 1, 2, 3, 4, 5, 6, 7 :: nat]"
  by (simp add: upt_rec)

lemma expected_pixels_4x2:
  assumes "d ! 0x470 = 0x10" "d ! 0x471 = 1" "d ! 0x472 = 0x10" "d ! 0x473 = 1"
    and "palette ! 0 = (0, 0, 0, 0)" and "palette ! 1 = (0xFF, 0, 0, 0xFF)"
  shows "expected_pixels d palette 8 =
      [0, 0, 0, 0, 0xFF, 0, 0, 0xFF, 0xFF, 0, 0, 0xFF, 0, 0, 0, 0,
       0, 0, 0, 0, 0xFF, 0, 0, 0xFF, 0xFF, 0, 0, 0xFF, 0, 0, 0, 0]"
proof -
  have i: "map (palette_index_of d) [0, 1, 2, 3, 4, 5, 6, 7] = [0, 1, 1, 0, 0, 1, 1, 0]"
    by (simp add: palette_index_of_def assms(1-4))
  have "expected_pixels d palette 8 =
          concat (map (\<lambda>k. bytes_of (palette ! k)) (map (palette_index_of d) [0, 1, 2, 3, 4, 5, 6, 7]))"
    unfolding expected_pixels_def upt_8 by (simp only: map_map comp_def)
  then show ?thesis
    unfolding i by (simp add: assms(5) assms(6) [unfolded One_nat_def] bytes_of_def)
qed

lemma rd_Inr: "rd a i = Inr b \<Longrightarrow> b = a ! i \<and> i < length a"
  by (auto simp add: rd_def split: if_splits)

lemma row_at_Inr: "row_at palette i = Inr c \<Longrightarrow> c = palette ! i"
  by (auto simp add: row_at_def split: if_splits)

lemma pair_at_Inr_value:
  assumes "pair_at fb palette i pd = Inr pd'"
  shows "pd' = take (4 * i) pd
                @ bytes_of (palette ! (unat (fb ! (0x470 + i div 2)) mod 16))
                @ bytes_of (palette ! (unat (fb ! (0x470 + i div 2)) div 16))
                @ drop (4 * i + 8) pd"
proof -
  let ?c1 = "bytes_of (palette ! (unat (fb ! (0x470 + i div 2)) mod 16))"
  let ?c2 = "bytes_of (palette ! (unat (fb ! (0x470 + i div 2)) div 16))"
  from assms obtain byte c1 pd1 c2 where
    r: "rd fb (0x470 + i div 2) = Inr byte"
    and a1: "row_at palette (unat byte mod 16) = Inr c1"
    and m1: "memcpy pd (i * 4) (bytes_of c1) 4 = Inr pd1"
    and a2: "row_at palette (unat byte div 16) = Inr c2"
    and m2: "memcpy pd1 ((i + 1) * 4) (bytes_of c2) 4 = Inr pd'"
    by (auto simp add: pair_at_def split: sum.splits)
  from rd_Inr [OF r] have b: "byte = fb ! (0x470 + i div 2)"
    by simp
  from row_at_Inr [OF a1] row_at_Inr [OF a2] have c: "bytes_of c1 = ?c1" "bytes_of c2 = ?c2"
    by (simp_all add: b)
  from pair_at_Inr [OF assms] have l: "4 * i + 8 \<le> length pd"
    by simp
  let ?pd1 = "take (4 * i) pd @ ?c1 @ drop (4 * i + 4) pd"
  from l have "memcpy pd (4 * i) ?c1 4 = Inr ?pd1"
    by (intro memcpy_ok) simp
  moreover have e: "i * 4 = 4 * i" "(i + 1) * 4 = 4 * i + 4"
    by simp_all
  ultimately have pd1: "pd1 = ?pd1"
    using m1 unfolding e c by simp
  from l have "length ?pd1 = length pd"
    by (simp add: length_bytes_of)
  with l have "memcpy ?pd1 (4 * i + 4) ?c2 4
                 = Inr (take (4 * i + 4) ?pd1 @ ?c2 @ drop (4 * i + 4 + 4) ?pd1)"
    by (intro memcpy_ok) simp
  with m2 have "pd' = take (4 * i + 4) ?pd1 @ ?c2 @ drop (4 * i + 4 + 4) ?pd1"
    unfolding e c pd1 by simp
  moreover from l have "take (4 * i + 4) ?pd1 = take (4 * i) pd @ ?c1"
    by (simp add: length_bytes_of)
  moreover from l have "drop (4 * i + 4 + 4) ?pd1 = drop (4 * i + 8) pd"
    by (simp add: length_bytes_of add.commute)
  ultimately show ?thesis
    by simp
qed

lemma pairs_fill_Inr:
  "for_each (pair_at fb palette) (map (\<lambda>j. 2 * j) [0..<n]) pd = Inr pd' \<Longrightarrow>
   pd' = expected_pixels fb palette (2 * n) @ drop (8 * n) pd"
proof (induction n arbitrary: pd')
  case 0
  then show ?case by (simp add: expected_pixels_def)
next
  case (Suc n)
  from Suc.prems obtain s where
    1: "for_each (pair_at fb palette) (map (\<lambda>j. 2 * j) [0..<n]) pd = Inr s"
    and 2: "pair_at fb palette (2 * n) s = Inr pd'"
    by (auto simp add: for_each_append split: sum.splits)
  let ?s = "expected_pixels fb palette (2 * n) @ drop (8 * n) pd"
  from Suc.IH [OF 1] have s: "s = ?s" .
  from pair_at_Inr [OF 2] have l: "4 * (2 * n) + 8 \<le> length ?s"
    by (simp add: s)
  have t: "take (4 * (2 * n)) ?s = expected_pixels fb palette (2 * n)"
    by (simp add: length_expected_pixels)
  have d: "drop (4 * (2 * n) + 8) ?s = drop (8 * Suc n) pd"
    by (simp add: length_expected_pixels add.commute)
  have i0: "palette_index_of fb (2 * n) = unat (fb ! (0x470 + (2 * n) div 2)) mod 16"
    by (simp add: palette_index_of_def)
  have i1: "palette_index_of fb (Suc (2 * n)) = unat (fb ! (0x470 + (2 * n) div 2)) div 16"
    by (simp add: palette_index_of_def)
  have e: "expected_pixels fb palette (2 * Suc n) =
            expected_pixels fb palette (2 * n)
            @ bytes_of (palette ! (unat (fb ! (0x470 + (2 * n) div 2)) mod 16))
            @ bytes_of (palette ! (unat (fb ! (0x470 + (2 * n) div 2)) div 16))"
    by (simp add: expected_pixels_Suc i0 i1)
  from pair_at_Inr_value [OF 2] show ?case
    unfolding s t d e by simp
qed

lemma unpack_Inr_even:
  assumes "even (unat width)" and "unpack fb palette width height = Inr pd"
  shows "pd = expected_pixels fb palette (unat width * unat height)"
proof -
  let ?n = "unat width * unat height div 2"
  from assms(1) have n: "2 * ?n = unat width * unat height"
    by simp
  from assms(2) obtain count where
    l: "unpack_loops fb palette width height (alloc_pixeldata count) = Inr pd"
    by (auto simp add: unpack_def split: sum.splits)
  then have "for_each (pair_at fb palette) (map (\<lambda>j. 2 * j) [0..<?n]) (alloc_pixeldata count)
               = Inr pd"
    by (simp only: unpack_loops_spec spec_unpack_loops_linear linear_indices_even [OF assms(1)])
  from pairs_fill_Inr [OF this]
  have eq: "pd = expected_pixels fb palette (unat width * unat height)
                 @ drop (8 * ?n) (alloc_pixeldata count)"
    unfolding n .
  from unpack_Inr_length [OF assms(2)]
  have "length pd = length (expected_pixels fb palette (unat width * unat height))"
    by (simp add: length_expected_pixels)
  with eq show ?thesis
    by (metis append_eq_append_conv append_Nil2)
qed

lemma unpack_odd_never_returns:
  assumes "odd (unat width)" and "0 < unat height"
  shows "unpack fb palette width height \<noteq> Inr pd"
proof
  assume r: "unpack fb palette width height = Inr pd"
  define n where "n = unat width * unat height"
  from assms(1) have "0 < unat width"
    by (auto elim: oddE)
  with assms(2) have n0: "0 < n"
    by (simp add: n_def)
  from assms(2) obtain h where h: "unat height = Suc h"
    by (cases "unat height") auto
  from linear_indices_odd [OF assms(1), of h] obtain front where
    f: "linear_indices (unat width) (unat height) = front @ [n - 1]"
    unfolding h [symmetric] n_def by blast
  from r obtain count where
    l: "unpack_loops fb palette width height (alloc_pixeldata count) = Inr pd"
    by (auto simp add: unpack_def split: sum.splits)
  then have "for_each (pair_at fb palette) (linear_indices (unat width) (unat height))
               (alloc_pixeldata count) = Inr pd"
    by (simp only: unpack_loops_spec spec_unpack_loops_linear)
  from for_each_pair_at_Inr [OF this] unpack_Inr_length [OF r]
  have "\<forall>i \<in> set (linear_indices (unat width) (unat height)). 4 * i + 8 \<le> 4 * n"
    by (simp add: n_def)
  then have "4 * (n - 1) + 8 \<le> 4 * n"
    unfolding f by simp
  with n0 show False
    by simp
qed

lemma linear_indices_first:
  assumes "0 < width" and "0 < height"
  shows "\<exists>rest. linear_indices width height = 0 # rest"
proof -
  from assms(2) obtain h where h: "height = Suc h"
    by (cases height) auto
  from assms(1) obtain m where m: "(width + 1) div 2 = Suc m"
    by (cases "(width + 1) div 2") auto
  have "[0..<Suc h] = 0 # [1..<Suc h]" "[0..<Suc m] = 0 # [1..<Suc m]"
    by (simp_all add: upt_conv_Cons)
  then show ?thesis
    unfolding linear_indices_eq h m by simp
qed

text \<open>
  With 32768 by 32768 pixels the allocation is empty, and already the first write is
  outside the pixel buffer.
\<close>

lemma unpack_truncated_allocation:
  assumes "0x470 < length fb" and "length palette = 16"
  shows "unpack fb palette 0x8000 0x8000 = Inl (WriteOutOfBounds 0)"
proof -
  from linear_indices_first [of "unat (0x8000 :: u16)" "unat (0x8000 :: u16)"] obtain rest where
    f: "linear_indices (unat (0x8000 :: u16)) (unat (0x8000 :: u16)) = 0 # rest"
    by auto
  from assms have r: "0x470 + 0 div 2 < length fb"
    by simp
  have "pair_at fb palette 0 [] = Inl (WriteOutOfBounds 0)"
    unfolding pair_at_unfold [OF r assms(2)] by (simp add: memcpy_def length_bytes_of)
  then have "unpack_loops fb palette 0x8000 0x8000 [] = Inl (WriteOutOfBounds 0)"
    unfolding unpack_loops_spec spec_unpack_loops_linear f by simp
  with alloc_pixeldata_wraps show ?thesis
    by (simp add: unpack_def)
qed

lemma unpack_loops_even:
  assumes "even (unat width)"
    and "0x470 + unat width * unat height div 2 \<le> length fb"
    and "length palette = 16"
    and "4 * (unat width * unat height) \<le> length pd"
  shows "unpack_loops fb palette width height pd =
           Inr (expected_pixels fb palette (unat width * unat height)
                @ drop (4 * (unat width * unat height)) pd)"
proof -
  let ?n = "unat width * unat height div 2"
  from assms(1) have n: "2 * ?n = unat width * unat height"
    by simp
  then have n8: "8 * ?n = 4 * (unat width * unat height)"
    by simp
  have "for_each (pair_at fb palette) (map (\<lambda>j. 2 * j) [0..<?n]) pd
        = Inr (expected_pixels fb palette (2 * ?n) @ drop (8 * ?n) pd)"
    using assms(2,3,4) n8 by (intro pairs_fill) simp_all
  then show ?thesis
    unfolding unpack_loops_spec spec_unpack_loops_linear linear_indices_even [OF assms(1)] n n8 .
qed

text \<open>
  On the sample file the algorithm of the specification, and with it the code, fills
  the 32 bytes of the 4 by 2 image.
\<close>

theorem unpack_loops_refines_spec_witness:
  "spec_unpack_loops sample_file sample_palette 4 2 (replicate 32 0) =
       Inr [0, 0, 0, 0, 0xFF, 0, 0, 0xFF, 0xFF, 0, 0, 0xFF, 0, 0, 0, 0,
            0, 0, 0, 0, 0xFF, 0, 0, 0xFF, 0xFF, 0, 0, 0xFF, 0, 0, 0, 0]"
proof -
  have e: "expected_pixels sample_file sample_palette 8 =
      [0, 0, 0, 0, 0xFF, 0, 0, 0xFF, 0xFF, 0, 0, 0xFF, 0, 0, 0, 0,
       0, 0, 0, 0, 0xFF, 0, 0, 0xFF, 0xFF, 0, 0, 0xFF, 0, 0, 0, 0]"
    by (rule expected_pixels_4x2) (simp_all add: sample_file_nth sample_palette_def)
  have "unpack_loops sample_file sample_palette 4 2 (replicate 32 0) =
          Inr (expected_pixels sample_file sample_palette (unat (4 :: u16) * unat (2 :: u16))
               @ drop (4 * (unat (4 :: u16) * unat (2 :: u16))) (replicate 32 0))"
    by (rule unpack_loops_even) (simp_all add: length_sample_file sample_palette_def)
  with unpack_loops_refines_spec [of sample_file sample_palette 4 2 "replicate 32 0"] show ?thesis
    by (simp add: e)
qed

lemma row_as_pairs:
  assumes "y < 65536"
  shows "for_each (pixel_pair fb palette width) (x_loop width (of_nat y) 0) pd =
           for_each (pair_at fb palette)
             (map (\<lambda>k. y * unat width + 2 * k) [0..<(unat width + 1) div 2]) pd"
proof -
  have xl: "x_loop width (of_nat y) 0
              = map (\<lambda>k. (of_nat y, 2 * of_nat k)) [0..<(unat width + 1) div 2]"
    using x_loop_eq [of width "of_nat y" 0] by simp
  have "pixel_pair fb palette width (of_nat y, 2 * of_nat k)
          = pair_at fb palette (y * unat width + 2 * k)"
    if "k \<in> set [0..<(unat width + 1) div 2]" for k
  proof -
    from that unat_u16_bound [of width] have "2 * k < 65536"
      by auto
    from pixel_pair_spec [OF assms this, of fb palette width]
    show ?thesis
      by (intro ext) (simp add: spec_pixel_pair_at)
  qed
  then show ?thesis
    unfolding xl for_each_map
    by (intro for_each_cong) simp
qed

lemma odd_row_effect:
  fixes width height :: u16
  assumes "odd (unat width)" and "y < unat height"
    and "0x470 + (y * unat width + unat width - 1) div 2 < length fb"
    and "length palette = 16"
    and "length pd = 4 * (unat width * unat height)"
  shows "(y + 1 < unat height \<longrightarrow>
            (\<exists>pd'. for_each (pixel_pair fb palette width) (x_loop width (of_nat y) 0) pd = Inr pd'
               \<and> take 4 (drop (4 * ((y + 1) * unat width)) pd')
                   = bytes_of (palette !
                       (unat (fb ! (0x470 + (y * unat width + unat width - 1) div 2)) div 16))))
       \<and> (y + 1 = unat height \<longrightarrow>
            for_each (pixel_pair fb palette width) (x_loop width (of_nat y) 0) pd
              = Inl (WriteOutOfBounds (4 * (unat width * unat height))))"
proof -
  define W where "W = unat width"
  define a where "a = y * W"
  define n where "n = W * unat height"
  from assms(1) obtain m where m: "W = Suc (2 * m)"
    unfolding W_def by (auto elim: oddE)
  from assms(2) unat_u16_bound [of height] have y: "y < 65536"
    by simp
  from assms(2) have "Suc y * W \<le> unat height * W"
    by (intro mult_le_mono1) simp
  then have an: "a + W \<le> n"
    by (simp add: a_def n_def mult.commute)
  let ?i = "a + W - 1"
  let ?front = "map (\<lambda>k. a + 2 * k) [0..<m]"
  have half: "(W + 1) div 2 = Suc m"
    by (simp add: m)
  have row: "for_each (pixel_pair fb palette width) (x_loop width (of_nat y) 0) pd
               = (case for_each (pair_at fb palette) ?front pd of
                    Inl e \<Rightarrow> Inl e
                  | Inr s \<Rightarrow> pair_at fb palette ?i s)"
  proof -
    have "map (\<lambda>k. a + 2 * k) [0..<Suc m] = ?front @ [?i]"
      by (simp add: m)
    then show ?thesis
      unfolding row_as_pairs [OF y] W_def [symmetric] a_def [symmetric] half
      by (simp add: for_each_append split: sum.splits)
  qed
  from assms(3) have rd: "0x470 + ?i div 2 < length fb"
    by (simp add: W_def a_def)
  have "0x470 + i div 2 < length fb \<and> 4 * i + 8 \<le> length pd" if "i \<in> set ?front" for i
  proof -
    from that obtain k where k: "k < m" "i = a + 2 * k"
      by auto
    then have "i + 2 \<le> ?i"
      by (simp add: m)
    moreover from this have "i div 2 \<le> ?i div 2"
      by (intro div_le_mono) simp
    ultimately show ?thesis
      using rd an assms(5) unfolding W_def [symmetric] n_def [symmetric] by simp
  qed
  then have "\<forall>i \<in> set ?front. 0x470 + i div 2 < length fb \<and> 4 * i + 8 \<le> length pd"
    by blast
  from for_each_pair_at_ok [OF assms(4) this] obtain s where
    s: "for_each (pair_at fb palette) ?front pd = Inr s" and ls: "length s = 4 * n"
    using assms(5) unfolding W_def [symmetric] n_def [symmetric] by auto
  have W0: "0 < W"
    by (simp add: m)
  let ?c1 = "bytes_of (palette ! (unat (fb ! (0x470 + ?i div 2)) mod 16))"
  let ?c2 = "bytes_of (palette ! (unat (fb ! (0x470 + ?i div 2)) div 16))"
  have next_row: "\<exists>pd'. for_each (pixel_pair fb palette width) (x_loop width (of_nat y) 0) pd = Inr pd'
               \<and> take 4 (drop (4 * ((y + 1) * W)) pd') = ?c2"
    if "y + 1 < unat height"
  proof -
    from that have "Suc (Suc y) * W \<le> unat height * W"
      by (intro mult_le_mono1) simp
    then have "a + W + W \<le> n"
      by (simp add: a_def n_def mult.commute)
    with W0 ls have l: "4 * ?i + 8 \<le> length s"
      by simp
    let ?r = "take (4 * ?i) s @ ?c1 @ ?c2 @ drop (4 * ?i + 8) s"
    from pair_at_ok [OF rd assms(4) l] have p: "pair_at fb palette ?i s = Inr ?r" .
    from l have "length (take (4 * ?i) s @ ?c1) = 4 * ?i + 4"
      by (simp add: length_bytes_of)
    moreover from W0 have "4 * ((y + 1) * W) = 4 * ?i + 4"
      by (simp add: a_def)
    ultimately have "drop (4 * ((y + 1) * W)) ((take (4 * ?i) s @ ?c1) @ ?c2 @ drop (4 * ?i + 8) s)
                       = ?c2 @ drop (4 * ?i + 8) s"
      by (metis append_eq_conv_conj)
    then have "take 4 (drop (4 * ((y + 1) * W)) ?r) = ?c2"
      by (simp add: length_bytes_of)
    with p show ?thesis
      unfolding row s sum.case by blast
  qed
  have last_row: "for_each (pixel_pair fb palette width) (x_loop width (of_nat y) 0) pd
              = Inl (WriteOutOfBounds (4 * n))"
    if "y + 1 = unat height"
  proof -
    have "a + W = n"
      by (simp add: a_def n_def that [symmetric] mult.commute)
    with W0 ls have "4 * ?i + 4 \<le> length s" "length s < 4 * ?i + 8" "4 * ?i + 4 = 4 * n"
      by simp_all
    with pair_at_overrun [OF rd assms(4), of s] show ?thesis
      unfolding row s sum.case by simp
  qed
  from next_row last_row show ?thesis
    unfolding W_def a_def n_def by (simp add: mult.commute)
qed

lemma y_loop_rows:
  "y_loop width height 0 = concat (map (\<lambda>j. x_loop width (of_nat j) 0) [0..<unat height])"
  using y_loop_eq [of width height 0] by simp

text \<open>
  Claim C5. The run visits the rows in order. With an odd width, the last pair of every
  row \<open>y\<close> is at \<open>x = width - 1\<close>, and its second pixel has the linear index
  \<open>(y + 1) * width\<close>. Run on a pixel buffer of \<open>width * height * 4\<close> bytes, the loop over a
  row that is not the last stores the colour of the high nibble of the pair's byte at
  that pixel, the first column of the next row; the loop over the last row ends in the
  write at byte offset \<open>4 * width * height\<close>, pixel \<open>width * height\<close>, past the end of the
  buffer. So \<open>unpack\<close> never returns a buffer, and when \<open>width * height * 4\<close> is below
  \<open>2^32\<close> and the file holds the bitmap it ends in that write.
\<close>

theorem odd_width_overruns:
  fixes width height :: u16
  assumes "odd (unat width)" and "y < unat height"
    and "0x470 + (y * unat width + unat width - 1) div 2 < length fb"
    and "length palette = 16"
    and "length pd = 4 * (unat width * unat height)"
  shows "y_loop width height 0 = concat (map (\<lambda>j. x_loop width (of_nat j) 0) [0..<unat height])
       \<and> x_loop width (of_nat y) 0 \<noteq> []
       \<and> last (x_loop width (of_nat y) 0) = (of_nat y, of_nat (unat width - 1))
       \<and> unat (pixel_index width (last (x_loop width (of_nat y) 0)) + 1) = (y + 1) * unat width
       \<and> (y + 1 < unat height \<longrightarrow>
            (\<exists>pd'. for_each (pixel_pair fb palette width) (x_loop width (of_nat y) 0) pd = Inr pd'
               \<and> take 4 (drop (4 * ((y + 1) * unat width)) pd')
                   = bytes_of (palette !
                       (unat (fb ! (0x470 + (y * unat width + unat width - 1) div 2)) div 16))))
       \<and> (y + 1 = unat height \<longrightarrow>
            for_each (pixel_pair fb palette width) (x_loop width (of_nat y) 0) pd
              = Inl (WriteOutOfBounds (4 * (unat width * unat height))))
       \<and> (\<forall>r. unpack fb palette width height \<noteq> Inr r)
       \<and> (4 * (unat width * unat height) < 2 ^ 32
            \<and> 0x470 + (unat width * unat height - 1) div 2 < length fb
          \<longrightarrow> unpack fb palette width height
                = Inl (WriteOutOfBounds (4 * (unat width * unat height))))"
proof -
  from assms(1) have w: "0 < unat width"
    by (auto elim: oddE)
  from assms(2) unat_u16_bound [of height] have y: "y < 65536"
    by simp
  from unat_u16_bound [of width] have x: "unat width - 1 < 65536"
    by simp
  from assms(2) have h: "0 < unat height"
    by simp
  from w have "y * unat width + (unat width - 1) + 1 = (y + 1) * unat width"
    by simp
  with pixel_index_nat(2) [OF y x, of width]
  have "unat (pixel_index width (of_nat y, of_nat (unat width - 1)) + 1) = (y + 1) * unat width"
    by simp
  with x_loop_last [OF assms(1), of "of_nat y"]
  have "x_loop width (of_nat y) 0 \<noteq> []"
    and "last (x_loop width (of_nat y) 0) = (of_nat y, of_nat (unat width - 1))"
    and "unat (pixel_index width (last (x_loop width (of_nat y) 0)) + 1) = (y + 1) * unat width"
    by simp_all
  moreover note y_loop_rows [of width height]
  moreover note odd_row_effect [OF assms]
  moreover have "\<forall>r. unpack fb palette width height \<noteq> Inr r"
    using unpack_odd_never_returns [OF assms(1) h] by blast
  moreover have "4 * (unat width * unat height) < 2 ^ 32
            \<and> 0x470 + (unat width * unat height - 1) div 2 < length fb
          \<longrightarrow> unpack fb palette width height
                = Inl (WriteOutOfBounds (4 * (unat width * unat height)))"
    using unpack_odd_overrun [OF assms(1) h _ _ assms(4)] by blast
  ultimately show ?thesis
    by blast
qed

theorem odd_width_overruns_witness:
  "last (x_loop 3 0 0) = (0, 2)
   \<and> (\<exists>pd'. for_each (pixel_pair sample_file sample_palette 3) (x_loop 3 0 0) (replicate 24 0x55)
               = Inr pd'
          \<and> take 4 (drop 12 pd') = [0, 0, 0, 0])
   \<and> for_each (pixel_pair sample_file sample_palette 3) (x_loop 3 1 0) (replicate 24 0x55)
       = Inl (WriteOutOfBounds 24)
   \<and> unpack sample_file sample_palette 3 2 = Inl (WriteOutOfBounds 24)"
proof -
  have o: "odd (unat (3 :: u16))" and y0: "0 < unat (2 :: u16)" and y1: "1 < unat (2 :: u16)"
    by simp_all
  have r0: "0x470 + (0 * unat (3 :: u16) + unat (3 :: u16) - 1) div 2 < length sample_file"
    and r1: "0x470 + (1 * unat (3 :: u16) + unat (3 :: u16) - 1) div 2 < length sample_file"
    by (simp_all add: length_sample_file)
  have p: "length sample_palette = 16"
    by (simp add: sample_palette_def)
  have l: "length (replicate 24 (0x55 :: u8)) = 4 * (unat (3 :: u16) * unat (2 :: u16))"
    by simp
  have b: "4 * (unat (3 :: u16) * unat (2 :: u16)) < 2 ^ 32
            \<and> 0x470 + (unat (3 :: u16) * unat (2 :: u16) - 1) div 2 < length sample_file"
    by (simp add: length_sample_file)
  have c: "bytes_of (sample_palette !
             (unat (sample_file ! (0x470 + (0 * unat (3 :: u16) + unat (3 :: u16) - 1) div 2)) div 16))
           = [0, 0, 0, 0]"
    by (simp add: sample_file_nth sample_palette_def bytes_of_def)
  from odd_width_overruns [OF o y0 r0 p l] b c
  have "last (x_loop 3 (of_nat 0) 0) = (of_nat 0, of_nat (unat (3 :: u16) - 1))"
    and "\<exists>pd'. for_each (pixel_pair sample_file sample_palette 3) (x_loop 3 (of_nat 0) 0)
                 (replicate 24 0x55) = Inr pd'
          \<and> take 4 (drop (4 * ((0 + 1) * unat (3 :: u16))) pd') = [0, 0, 0, 0]"
    and "unpack sample_file sample_palette 3 2
           = Inl (WriteOutOfBounds (4 * (unat (3 :: u16) * unat (2 :: u16))))"
    by auto
  moreover from odd_width_overruns [OF o y1 r1 p l]
  have "for_each (pixel_pair sample_file sample_palette 3) (x_loop 3 (of_nat 1) 0)
          (replicate 24 0x55)
        = Inl (WriteOutOfBounds (4 * (unat (3 :: u16) * unat (2 :: u16))))"
    by simp
  ultimately show ?thesis
    by simp
qed

text \<open>
  With an even width, the linear pixel indices that the iterations of the loops write to,
  in the order of the writes, are \<open>0, 1, ..., width * height - 1\<close>. Whenever \<open>unpack\<close>
  returns, every pixel of its result is the palette colour of the pixel's nibble; it
  returns on a file that holds the bitmap when \<open>width * height * 4\<close> is below \<open>2^32\<close>.
\<close>

lemma even_width_fills_buffer:
  assumes "even (unat width)"
  shows "concat (map (\<lambda>yx. [unat (pixel_index width yx), unat (pixel_index width yx + 1)])
                  (y_loop width height 0))
           = [0..<unat width * unat height]
       \<and> (\<forall>pd. unpack fb palette width height = Inr pd
              \<longrightarrow> pd = expected_pixels fb palette (unat width * unat height))
       \<and> (4 * (unat width * unat height) < 2 ^ 32
            \<and> 0x470 + unat width * unat height div 2 \<le> length fb
            \<and> length palette = 16
          \<longrightarrow> unpack fb palette width height
                = Inr (expected_pixels fb palette (unat width * unat height)))"
proof (intro conjI allI impI)
  show "concat (map (\<lambda>yx. [unat (pixel_index width yx), unat (pixel_index width yx + 1)])
                  (y_loop width height 0))
           = [0..<unat width * unat height]"
    by (rule written_pixels_even [OF assms])
next
  fix pd
  assume "unpack fb palette width height = Inr pd"
  then show "pd = expected_pixels fb palette (unat width * unat height)"
    by (rule unpack_Inr_even [OF assms])
next
  assume "4 * (unat width * unat height) < 2 ^ 32
            \<and> 0x470 + unat width * unat height div 2 \<le> length fb
            \<and> length palette = 16"
  then show "unpack fb palette width height
                = Inr (expected_pixels fb palette (unat width * unat height))"
    by (intro unpack_even [OF assms]) blast+
qed

lemma even_width_fills_buffer_sample:
  "concat (map (\<lambda>yx. [unat (pixel_index 4 yx), unat (pixel_index 4 yx + 1)]) (y_loop 4 2 0))
     = [0, 1, 2, 3, 4, 5, 6, 7]
   \<and> unpack sample_file sample_palette 4 2 =
       Inr [0, 0, 0, 0, 0xFF, 0, 0, 0xFF, 0xFF, 0, 0, 0xFF, 0, 0, 0, 0,
            0, 0, 0, 0, 0xFF, 0, 0, 0xFF, 0xFF, 0, 0, 0xFF, 0, 0, 0, 0]"
proof -
  have e: "expected_pixels sample_file sample_palette 8 =
      [0, 0, 0, 0, 0xFF, 0, 0, 0xFF, 0xFF, 0, 0, 0xFF, 0, 0, 0, 0,
       0, 0, 0, 0, 0xFF, 0, 0, 0xFF, 0xFF, 0, 0, 0xFF, 0, 0, 0, 0]"
    by (rule expected_pixels_4x2) (simp_all add: sample_file_nth sample_palette_def)
  have ev: "even (unat (4 :: u16))"
    by simp
  have n: "unat (4 :: u16) * unat (2 :: u16) = 8"
    by simp
  have b: "4 * (8 :: nat) < 2 ^ 32 \<and> 0x470 + 8 div 2 \<le> length sample_file
            \<and> length sample_palette = 16"
    by (simp add: length_sample_file sample_palette_def)
  from even_width_fills_buffer [OF ev, of 2 sample_file sample_palette, unfolded n] b
  have "concat (map (\<lambda>yx. [unat (pixel_index 4 yx), unat (pixel_index 4 yx + 1)]) (y_loop 4 2 0))
          = [0..<8]"
    and "unpack sample_file sample_palette 4 2 = Inr (expected_pixels sample_file sample_palette 8)"
    by blast+
  then show ?thesis
    by (simp only: e upt_8 simp_thms)
qed

section \<open>One file\<close>

lemma to_png_file_eq:
  assumes "validate_file fileBuffer = Inr True"
    and "decode_palette (data fileBuffer) = Inr palette"
    and "read_width (data fileBuffer) = Inr width"
    and "read_height (data fileBuffer) = Inr height"
    and "unpack (data fileBuffer) palette width height = Inr pixeldata"
  shows "to_png_file fileBuffer =
           Inr (Some \<lparr>png_w = uint width, png_h = uint height, png_comp = 4,
                      png_data = pixeldata, png_stride = uint width * 4\<rparr>)"
  by (simp add: to_png_file_def assms PIXEL_STRIDE_def)



lemma take_drop_nth:
  assumes "take n (drop k xs) = ys" and "i < length ys"
  shows "xs ! (k + i) = ys ! i \<and> k + i < length xs"
proof -
  from assms have "i < n" "i < length xs - k"
    by auto
  then have "take n (drop k xs) ! i = xs ! (k + i)"
    by simp
  with assms(1) \<open>i < length xs - k\<close> show ?thesis
    by auto
qed

lemma word_of_unat_eq: "unat (w :: u16) = n \<Longrightarrow> w = of_nat n"
proof -
  have "of_nat (unat w) = w"
    by simp
  then show "unat w = n \<Longrightarrow> w = of_nat n"
    by simp
qed

lemma scenario_4x2:
  assumes sig: "take 4 (data b) = [0x47, 0x41, 0x4E, 0x10]"
    and hdr: "take 4 (drop 0x424 (data b)) = [0x04, 0x00, 0x02, 0x00]"
    and pal1: "take 3 (drop 0x434 (data b)) = [0xFF, 0x00, 0x00]"
    and bmp: "take 4 (drop 0x470 (data b)) = [0x10, 0x01, 0x10, 0x01]"
  shows "to_png_file b =
           Inr (Some \<lparr>png_w = 4, png_h = 2, png_comp = 4,
                      png_data = [0, 0, 0, 0, 0xFF, 0, 0, 0xFF, 0xFF, 0, 0, 0xFF, 0, 0, 0, 0,
                                  0, 0, 0, 0, 0xFF, 0, 0, 0xFF, 0xFF, 0, 0, 0xFF, 0, 0, 0, 0],
                      png_stride = 16\<rparr>)"
proof -
  let ?d = "data b"
  from take_drop_nth [OF bmp, of 3] have len: "0x474 \<le> length ?d"
    by simp
  have h: "?d ! 0x424 = 4" "?d ! 0x425 = 0" "?d ! 0x426 = 2" "?d ! 0x427 = 0"
    using take_drop_nth [OF hdr, of 0] take_drop_nth [OF hdr, of 1]
      take_drop_nth [OF hdr, of 2] take_drop_nth [OF hdr, of 3]
    by simp_all
  have p: "?d ! 0x434 = 0xFF" "?d ! 0x435 = 0" "?d ! 0x436 = 0"
    using take_drop_nth [OF pal1, of 0] take_drop_nth [OF pal1, of 1]
      take_drop_nth [OF pal1, of 2]
    by simp_all
  have m: "?d ! 0x470 = 0x10" "?d ! 0x471 = 1" "?d ! 0x472 = 0x10" "?d ! 0x473 = 1"
    using take_drop_nth [OF bmp, of 0] take_drop_nth [OF bmp, of 1]
      take_drop_nth [OF bmp, of 2] take_drop_nth [OF bmp, of 3]
    by simp_all
  from len sig have v: "validate_file b = Inr True"
    by (simp add: validate_file_long SIGNATURE_OFFSET_def SIGNATURE_LENGTH_def)
  from len have "0x46F \<le> length ?d"
    by simp
  from decode_palette_value [OF this] obtain palette where
    pal: "decode_palette ?d = Inr palette" "length palette = 16" "palette ! 0 = (0, 0, 0, 0)"
      "\<forall>i \<in> {1..15}. palette ! i =
         (?d ! (0x430 + 4 * i), ?d ! (0x430 + 4 * i + 1), ?d ! (0x430 + 4 * i + 2), 0xFF)"
    by blast
  from pal(4) have "palette ! 1 = (?d ! 0x434, ?d ! 0x435, ?d ! 0x436, 0xFF)"
    by simp
  then have p1: "palette ! 1 = (0xFF, 0, 0, 0xFF)"
    by (simp add: p)
  from len have "unat HEIGHT_OFFSET + 2 \<le> length ?d"
    by (simp add: HEIGHT_OFFSET_def)
  from read_header_values [OF this] obtain width height where
    wh: "read_width ?d = Inr width" "read_height ?d = Inr height"
      "unat width = unat (?d ! 0x424) + 256 * unat (?d ! 0x425)"
      "unat height = unat (?d ! 0x426) + 256 * unat (?d ! 0x427)"
    by blast
  from wh(3,4) have "unat width = 4" "unat height = 2"
    by (simp_all add: h)
  then have w: "width = 4" and ht: "height = 2"
    using word_of_unat_eq [of width 4] word_of_unat_eq [of height 2] by simp_all
  have "unpack ?d palette 4 2 = Inr (expected_pixels ?d palette (unat (4 :: u16) * unat (2 :: u16)))"
    using len pal(2) by (intro unpack_even) simp_all
  then have u: "unpack ?d palette 4 2 = Inr (expected_pixels ?d palette 8)"
    by simp
  note e = expected_pixels_4x2 [OF m pal(3) p1]
  from to_png_file_eq [OF v pal(1) wh(1,2) u [folded w ht]] show ?thesis
    by (simp add: w ht e)
qed

lemma to_png_file_sample:
  "to_png_file (readFromFile (Some sample_file)) =
     Inr (Some \<lparr>png_w = 4, png_h = 2, png_comp = 4,
                png_data = [0, 0, 0, 0, 0xFF, 0, 0, 0xFF, 0xFF, 0, 0, 0xFF, 0, 0, 0, 0,
                            0, 0, 0, 0, 0xFF, 0, 0, 0xFF, 0xFF, 0, 0, 0xFF, 0, 0, 0, 0],
                png_stride = 16\<rparr>)"
  by (rule scenario_4x2) (simp_all add: readFromFile_def sample_file_regions)


lemma to_png_file_fault:
  assumes "validate_file fileBuffer = Inr True"
    and "decode_palette (data fileBuffer) = Inr palette"
    and "read_width (data fileBuffer) = Inr width"
    and "read_height (data fileBuffer) = Inr height"
    and "unpack (data fileBuffer) palette width height = Inl e"
  shows "to_png_file fileBuffer = Inl e"
  by (simp add: to_png_file_def assms)


lemma length_huge_file: "length huge_file = 0x470 + 0x20000000"
  by (simp add: huge_file_def)

lemma huge_file_regions:
  "take 4 huge_file = [0x47, 0x41, 0x4E, 0x10]"
  "huge_file ! 0x424 = 0x00" "huge_file ! 0x425 = 0x80"
  "huge_file ! 0x426 = 0x00" "huge_file ! 0x427 = 0x80"
  by (simp_all add: huge_file_def nth_append)

lemma huge_file_header:
  "read_width huge_file = Inr 0x8000" "read_height huge_file = Inr 0x8000"
proof -
  have "unat HEIGHT_OFFSET + 2 \<le> length huge_file"
    by (simp add: HEIGHT_OFFSET_def length_huge_file)
  from read_header_values [OF this] obtain width height where
    wh: "read_width huge_file = Inr width" "read_height huge_file = Inr height"
      "unat width = unat (huge_file ! 0x424) + 256 * unat (huge_file ! 0x425)"
      "unat height = unat (huge_file ! 0x426) + 256 * unat (huge_file ! 0x427)"
    by blast
  from wh(3,4) have "unat width = 32768" "unat height = 32768"
    by (simp_all add: huge_file_regions)
  then have "width = 0x8000" "height = 0x8000"
    using word_of_unat_eq [of width 32768] word_of_unat_eq [of height 32768] by simp_all
  with wh(1,2) show "read_width huge_file = Inr 0x8000" "read_height huge_file = Inr 0x8000"
    by simp_all
qed

lemma to_png_file_huge:
  "to_png_file (readFromFile (Some huge_file)) = Inl (WriteOutOfBounds 0)"
proof -
  have v: "validate_file (readFromFile (Some huge_file)) = Inr True"
    by (simp add: validate_file_long readFromFile_def length_huge_file huge_file_regions
        SIGNATURE_OFFSET_def SIGNATURE_LENGTH_def)
  have "0x46F \<le> length huge_file"
    by (simp add: length_huge_file)
  from decode_palette_value [OF this] obtain palette where
    p: "decode_palette huge_file = Inr palette" "length palette = 16"
    by blast
  have "0x470 < length huge_file"
    by (simp add: length_huge_file)
  from unpack_truncated_allocation [OF this p(2)]
  have u: "unpack huge_file palette 0x8000 0x8000 = Inl (WriteOutOfBounds 0)" .
  have d: "data (readFromFile (Some huge_file)) = huge_file"
    by (simp add: readFromFile_def)
  show ?thesis
    by (rule to_png_file_fault [OF v, where palette = palette and width = "0x8000"
          and height = "0x8000"])
       (simp_all add: d p(1) huge_file_header u)
qed




text \<open>
  Claim C2, as amended. For a 4 by 2 image whose palette entry 1 is RGB \<open>(255, 0, 0)\<close>
  and whose bitmap is \<open>10 01 10 01\<close>, row 0 of the pixel buffer is transparent, red, red,
  transparent: the low nibble of \<open>0x10\<close> is 0 and goes to the left pixel of the first
  pair, its high nibble 1 to the right pixel.
\<close>

theorem scenario_4x2_row0:
  assumes "take 4 (data b) = [0x47, 0x41, 0x4E, 0x10]"
    and "take 4 (drop 0x424 (data b)) = [0x04, 0x00, 0x02, 0x00]"
    and "take 3 (drop 0x434 (data b)) = [0xFF, 0x00, 0x00]"
    and "take 4 (drop 0x470 (data b)) = [0x10, 0x01, 0x10, 0x01]"
  shows "\<exists>call. to_png_file b = Inr (Some call) \<and> png_w call = 4 \<and> png_h call = 2
           \<and> take 16 (png_data call)
               = [0, 0, 0, 0, 0xFF, 0, 0, 0xFF, 0xFF, 0, 0, 0xFF, 0, 0, 0, 0]"
  using scenario_4x2 [OF assms] by simp

theorem scenario_4x2_row0_witness:
  "\<exists>call. to_png_file (readFromFile (Some sample_file)) = Inr (Some call)
      \<and> png_w call = 4 \<and> png_h call = 2
      \<and> take 16 (png_data call) = [0, 0, 0, 0, 0xFF, 0, 0, 0xFF, 0xFF, 0, 0, 0xFF, 0, 0, 0, 0]"
  using scenario_4x2_row0 [of "readFromFile (Some sample_file)"]
  by (simp add: readFromFile_def sample_file_regions)

text \<open>
  The claim's own row 0 (red, transparent, red, transparent) is not what the code
  produces for such a file.
\<close>

theorem scenario_4x2_row0_counterexample:
  "\<not> (case to_png_file (readFromFile (Some sample_file)) of
        Inr (Some call) \<Rightarrow>
          take 16 (png_data call) = [0xFF, 0, 0, 0xFF, 0, 0, 0, 0, 0xFF, 0, 0, 0xFF, 0, 0, 0, 0]
      | _ \<Rightarrow> False)"
  by (simp add: to_png_file_sample)




text \<open>
  Claim C6 fails on the code. The width 32768 is even, and the file holds its whole
  bitmap; the pixel count \<open>2^30\<close> is exact, but \<^verbatim>\<open>PIXEL_STRIDE * count\<close> is computed in
  32 bits and is 0, so the pixel buffer is empty and the first write of the loops is
  outside it: no pixel of the image is written.
\<close>

theorem even_width_truncated_allocation:
  "even (unat (0x8000 :: u16))
   \<and> length huge_file = 0x470 + unat (0x8000 :: u16) * unat (0x8000 :: u16) div 2
   \<and> validate_file (readFromFile (Some huge_file)) = Inr True
   \<and> read_width huge_file = Inr 0x8000 \<and> read_height huge_file = Inr 0x8000
   \<and> pixel_count 0x8000 0x8000 = Inr 0x40000000
   \<and> alloc_pixeldata 0x40000000 = []
   \<and> (\<exists>palette. decode_palette huge_file = Inr palette
         \<and> unpack huge_file palette 0x8000 0x8000 = Inl (WriteOutOfBounds 0))
   \<and> to_png_file (readFromFile (Some huge_file)) = Inl (WriteOutOfBounds 0)"
proof -
  have v: "validate_file (readFromFile (Some huge_file)) = Inr True"
    by (simp add: validate_file_long readFromFile_def length_huge_file huge_file_regions
        SIGNATURE_OFFSET_def SIGNATURE_LENGTH_def)
  have "0x46F \<le> length huge_file"
    by (simp add: length_huge_file)
  from decode_palette_value [OF this] obtain palette where
    p: "decode_palette huge_file = Inr palette" "length palette = 16"
    by blast
  have "0x470 < length huge_file"
    by (simp add: length_huge_file)
  from unpack_truncated_allocation [OF this p(2)] p(1)
  have "\<exists>palette. decode_palette huge_file = Inr palette
         \<and> unpack huge_file palette 0x8000 0x8000 = Inl (WriteOutOfBounds 0)"
    by blast
  with v huge_file_header alloc_pixeldata_wraps to_png_file_huge show ?thesis
    by (simp add: length_huge_file)
qed

end
